theory Spec2Isabelle
  imports Main "HOL-Library.Word"
begin

unbundle bit_operations_syntax

section \<open>Data model\<close>

text \<open>
  The extension works on PostgreSQL's \<open>int64\<close>, \<open>uint64\<close> and \<open>uint32\<close>.  All three
  are modelled as machine words: \<open>+\<close> and \<open>-\<close> wrap around (PostgreSQL is compiled with
  \<open>-fwrapv\<close>, so signed overflow wraps as well), signed comparisons are \<open><s\<close> and
  \<open>\<le>s\<close>, unsigned ones \<open><\<close> and \<open>\<le>\<close>.  A conversion between \<open>int64\<close> and
  \<open>uint64\<close> keeps the bits, so both are the same type here.
\<close>

type_synonym int64 = "64 word"
type_synonym uint64 = "64 word"
type_synonym uint32 = "32 word"

text \<open>
  Every failure of the source is an \<open>ereport(ERROR, ...)\<close> with the same error code and
  a different message.  The constructors name the messages:
  \<^item> \<open>RangeTooSmall\<close>: "sequence too short to encrypt." / "sequence too short to decrypt."
  \<^item> \<open>ValueOutOfRange\<close>: "nextval of the sequence is outside the interval.",
    "value out of sequence bounds.", "invalid value: ... is outside of range [...]"
  \<^item> \<open>CycleLimitExceeded\<close>: "infinite cycle walking prevented for value ..."
  \<^item> \<open>SequenceExhausted\<close>: an error raised by \<open>nextval_oid\<close> itself.
\<close>

datatype error = RangeTooSmall | ValueOutOfRange | CycleLimitExceeded | SequenceExhausted

definition PG_INT64_MIN :: int64 where
  "PG_INT64_MIN = - 0x7FFFFFFFFFFFFFFF - 1"

definition PG_INT64_MAX :: int64 where
  "PG_INT64_MAX = 0x7FFFFFFFFFFFFFFF"

section \<open>Range validation\<close>

definition check_sequence_range :: "int64 \<Rightarrow> int64 \<Rightarrow> bool" where
  "check_sequence_range minv maxv =
     (if (0 <s minv \<and> maxv <s PG_INT64_MIN + minv) \<or>
         (minv <s 0 \<and> PG_INT64_MAX + minv <s maxv)
      then True
      else (4 - 1 \<le>s maxv - minv))"

text \<open>
  The same function with every signed addition and subtraction checked: \<open>None\<close> as soon
  as an operation that the source evaluates leaves the \<open>int64\<close> range.  The operands of
  \<open>&&\<close> and \<open>||\<close> are evaluated left to right and only as far as needed.
\<close>

definition add64_checked :: "int64 \<Rightarrow> int64 \<Rightarrow> int64 option" where
  "add64_checked a b =
     (if - (2 ^ 63) \<le> sint a + sint b \<and> sint a + sint b < 2 ^ 63 then Some (a + b) else None)"

definition sub64_checked :: "int64 \<Rightarrow> int64 \<Rightarrow> int64 option" where
  "sub64_checked a b =
     (if - (2 ^ 63) \<le> sint a - sint b \<and> sint a - sint b < 2 ^ 63 then Some (a - b) else None)"

definition check_sequence_range_checked :: "int64 \<Rightarrow> int64 \<Rightarrow> bool option" where
  "check_sequence_range_checked minv maxv =
     (case (if 0 <s minv
            then map_option (\<lambda>lo. maxv <s lo) (add64_checked PG_INT64_MIN minv)
            else Some False) of
        None \<Rightarrow> None
      | Some True \<Rightarrow> Some True
      | Some False \<Rightarrow>
          (case (if minv <s 0
                 then map_option (\<lambda>hi. hi <s maxv) (add64_checked PG_INT64_MAX minv)
                 else Some False) of
             None \<Rightarrow> None
           | Some True \<Rightarrow> Some True
           | Some False \<Rightarrow> map_option (\<lambda>d. 4 - 1 \<le>s d) (sub64_checked maxv minv)))"

section \<open>The cipher\<close>

text \<open>
  \<open>hash_uint32\<close> is PostgreSQL's, not the extension's: every definition below takes it
  as the parameter \<open>hash_uint32\<close>, and every general theorem holds for any function in
  its place.  Closed instances use \<open>pg_hash_uint32\<close>, PostgreSQL's function in
  \<open>hashfn.c\<close>: \<open>a = b = c = 0x9e3779b9 + sizeof(uint32) + 3923095; a += k;\<close> then Bob
  Jenkins' \<open>final(a, b, c)\<close>, and \<open>c\<close> is the result.  (PostgreSQL's \<open>hashint4(1)\<close> is
  \<open>-1905060026\<close>; lemma \<open>pg_hash_uint32_1\<close> below.)
\<close>

definition rot :: "uint32 \<Rightarrow> nat \<Rightarrow> uint32" where
  "rot x k = word_rotl k x"

definition pg_hash_uint32 :: "uint32 \<Rightarrow> uint32" where
  "pg_hash_uint32 k =
     (let a0 = 0x9e3779b9 + 4 + 3923095;
          a = a0 + k; b = a0; c = a0;
          c = (c XOR b) - rot b 14;
          a = (a XOR c) - rot c 11;
          b = (b XOR a) - rot a 25;
          c = (c XOR b) - rot b 16;
          a = (a XOR c) - rot c 4;
          b = (b XOR a) - rot a 14;
          c = (c XOR b) - rot b 24
      in c)"

definition walk_max :: int where
  "walk_max = 1000000"

definition NR :: nat where
  "NR = 9"

text \<open>The two half blocks and the two temporaries of the round loop.\<close>

record halves =
  l1 :: uint32
  r1 :: uint32
  l2 :: uint32
  r2 :: uint32

text \<open>\<open>hsz = 1; while (hsz < 32 && ((uint64)1<<(2*hsz)) < interval) hsz++;\<close>\<close>

function hsz_loop :: "nat \<Rightarrow> uint64 \<Rightarrow> nat" where
  "hsz_loop hsz interval =
     (if hsz < 32 \<and> push_bit (2 * hsz) (1 :: uint64) < interval
      then hsz_loop (hsz + 1) interval else hsz)"
  by pat_completeness auto
termination
  by (relation "measure (\<lambda>(hsz, interval). 32 - hsz)") auto

declare hsz_loop.simps [simp del]

text \<open>
  \<open>mask = (1 << hsz) - 1\<close>, computed in \<open>int\<close> and stored in a \<open>uint32\<close>.  For
  \<open>hsz \<le> 31\<close> this is the word of \<open>hsz\<close> low bits set.  For \<open>hsz = 32\<close>, reached by
  ranges of more than \<open>2^62\<close> elements, the shift is outside what C defines; the word
  operation gives all 32 bits set there.  The results on the round trip below are
  stated for ranges of at most \<open>2^62\<close> elements, where \<open>hsz \<le> 31\<close>.
\<close>

definition hsz_mask :: "nat \<Rightarrow> uint32" where
  "hsz_mask hsz = push_bit hsz 1 - 1"

text \<open>The key scrambling of \<open>cycle_walking_cipher\<close>.\<close>

definition scramble_key :: "(uint32 \<Rightarrow> uint32) \<Rightarrow> uint64 \<Rightarrow> uint64" where
  "scramble_key hash_uint32 crypt_key =
     ucast (hash_uint32 (ucast (crypt_key AND 0xffffffff))) OR
     push_bit 32 (ucast (hash_uint32 (ucast (drop_bit 32 crypt_key AND 0xffffffff))))"

text \<open>
  The two statements that compute the round subkey:
  \<open>Ki = crypt_key >> ((hsz * (direction==0 ? i : NR-1-i)) & 0x3f); Ki += (direction==0 ? i : NR-1-i);\<close>
  The shifted 64-bit key is truncated by the assignment to the \<open>uint32\<close> \<open>Ki\<close>.
\<close>

definition round_Ki :: "uint64 \<Rightarrow> nat \<Rightarrow> int \<Rightarrow> nat \<Rightarrow> uint32" where
  "round_Ki crypt_key hsz direction i =
     (let Ki = ucast (drop_bit ((hsz * (if direction = 0 then i else NR - 1 - i)) AND 0x3f) crypt_key)
      in Ki + of_nat (if direction = 0 then i else NR - 1 - i))"

text \<open>The body of the \<open>for\<close> loop: round \<open>i\<close> of the Feistel network.\<close>

definition feistel_round ::
  "(uint32 \<Rightarrow> uint32) \<Rightarrow> nat \<Rightarrow> uint32 \<Rightarrow> uint64 \<Rightarrow> int \<Rightarrow> nat \<Rightarrow> halves \<Rightarrow> halves" where
  "feistel_round hash_uint32 hsz mask' crypt_key direction i s =
     (let l2' = r1 s;
          Ki = round_Ki crypt_key hsz direction i;
          r2' = (l1 s XOR hash_uint32 (r1 s) XOR hash_uint32 Ki) AND mask'
      in \<lparr>l1 = l2', r1 = r2', l2 = l2', r2 = r2'\<rparr>)"

text \<open>The \<open>for\<close> loop, from round \<open>i\<close> on: \<open>for (i = 0; i < NR; i++)\<close>.\<close>

function feistel_rounds ::
  "(uint32 \<Rightarrow> uint32) \<Rightarrow> nat \<Rightarrow> uint32 \<Rightarrow> uint64 \<Rightarrow> int \<Rightarrow> nat \<Rightarrow> halves \<Rightarrow> halves" where
  "feistel_rounds hash_uint32 hsz mask' crypt_key direction i s =
     (if i < NR
      then feistel_rounds hash_uint32 hsz mask' crypt_key direction (i + 1)
             (feistel_round hash_uint32 hsz mask' crypt_key direction i s)
      else s)"
  by pat_completeness auto
termination
  by (relation "measure (\<lambda>(h, hsz, m, k, d, i, s). NR - i)") auto

declare feistel_rounds.simps [simp del]

text \<open>
  The statements of the \<open>do ... while\<close> body after the round loop:
  \<open>result = ((uint64)r1 << hsz) | l1;\<close> and the swap
  \<open>l1 = r2; r1 = l2;\<close> that prepares the next cycle.
\<close>

definition block_result :: "nat \<Rightarrow> halves \<Rightarrow> uint64" where
  "block_result hsz s = push_bit hsz (ucast (r1 s)) OR ucast (l1 s)"

definition swap_halves :: "halves \<Rightarrow> halves" where
  "swap_halves s = s\<lparr>l1 := r2 s, r1 := l2 s\<rparr>"

text \<open>
  The \<open>do ... while\<close> loop.  \<open>d\<close> is \<open>maxval - minval\<close>, converted to \<open>uint64\<close> by the
  comparison with the \<open>uint64\<close> \<open>result\<close>.  The loop returns \<open>result\<close> and \<open>walk_count\<close>
  as they are when the loop is left: \<open>walk_count++\<close> is evaluated only when the result is
  out of range, and increments also when the comparison with \<open>walk_max\<close> fails.
\<close>

function cycle_walk ::
  "(uint32 \<Rightarrow> uint32) \<Rightarrow> nat \<Rightarrow> uint32 \<Rightarrow> uint64 \<Rightarrow> int \<Rightarrow> uint64 \<Rightarrow> halves \<Rightarrow> int
     \<Rightarrow> uint64 \<times> int" where
  "cycle_walk hash_uint32 hsz mask' crypt_key direction d s walk_count =
     (let s' = feistel_rounds hash_uint32 hsz mask' crypt_key direction 0 s;
          result = block_result hsz s'
      in if d < result then
           (if walk_count < walk_max
            then cycle_walk hash_uint32 hsz mask' crypt_key direction d (swap_halves s')
                   (walk_count + 1)
            else (result, walk_count + 1))
         else (result, walk_count))"
  by pat_completeness auto
termination
  by (relation "measure (\<lambda>(h, hsz, m, k, dir, d, s, walk_count). nat (walk_max - walk_count))")
     auto

declare cycle_walk.simps [simp del]

text \<open>
  The initial half blocks: \<open>l1 = (value - minval) >> hsz; r1 = (value - minval) & mask;\<close>
  The subtraction and the shift are on \<open>int64\<close> (an arithmetic shift), the assignments
  truncate to \<open>uint32\<close>.  \<open>l2\<close> and \<open>r2\<close> are not initialised by the source; the round
  loop assigns both before they are read (\<open>NR > 0\<close>), so the model starts them at 0.
\<close>

definition initial_halves :: "nat \<Rightarrow> uint32 \<Rightarrow> int64 \<Rightarrow> int64 \<Rightarrow> halves" where
  "initial_halves hsz mask' minval val =
     \<lparr>l1 = ucast (signed_drop_bit hsz (val - minval)),
      r1 = ucast ((val - minval) AND ucast mask'),
      l2 = 0, r2 = 0\<rparr>"

definition cycle_walking_cipher ::
  "(uint32 \<Rightarrow> uint32) \<Rightarrow> int64 \<Rightarrow> int64 \<Rightarrow> int64 \<Rightarrow> uint64 \<Rightarrow> int \<Rightarrow> error + int64" where
  "cycle_walking_cipher hash_uint32 minval maxval val crypt_key direction =
     (let interval = maxval - minval + 1;
          hsz = hsz_loop 1 interval;
          mask' = hsz_mask hsz;
          crypt_key = scramble_key hash_uint32 crypt_key;
          s = initial_halves hsz mask' minval val;
          (result, walk_count) =
             cycle_walk hash_uint32 hsz mask' crypt_key direction (maxval - minval) s 0
      in if walk_max \<le> walk_count then Inl CycleLimitExceeded else Inr (minval + result))"

section \<open>The specification's words\<close>

text \<open>
  The round sub-key as the specification words it: "a sliding, wrapping window of \<open>hsz\<close>
  bits taken from \<open>scrambled_key\<close>, starting at bit offset
  \<open>(hsz * subkey_index) mod 64\<close>, plus the subkey index added in".  A window that wraps
  reads the key as a ring of 64 bits.
\<close>

definition spec_round_subkey :: "uint64 \<Rightarrow> nat \<Rightarrow> nat \<Rightarrow> uint32" where
  "spec_round_subkey scrambled_key hsz subkey_index =
     ucast (take_bit hsz (word_rotr ((hsz * subkey_index) mod 64) scrambled_key))
       + of_nat subkey_index"

text \<open>
  One Feistel round as the specification words it: "the new right half becomes
  \<open>(l XOR Mixing(r) XOR Mixing(subkey)) & mask\<close>; the new left half becomes the previous
  right half".
\<close>

definition spec_round ::
  "(uint32 \<Rightarrow> uint32) \<Rightarrow> uint32 \<Rightarrow> uint32 \<Rightarrow> uint32 \<times> uint32 \<Rightarrow> uint32 \<times> uint32" where
  "spec_round mixing mask' subkey lr =
     (snd lr, (fst lr XOR mixing (snd lr) XOR mixing subkey) AND mask')"

text \<open>
  The walk of the specification's Cycle-Walking Driver: "run the Feistel Core once over
  the current (l, r); ... Otherwise, feed the Feistel Core's output back in as the new
  (l, r) and repeat".  \<open>walk_step\<close> runs the network once and prepares the half blocks
  for the next attempt; \<open>walk_result ... n\<close> is the reassembled result of attempt number
  \<open>n\<close> (from 0) of the walk that \<open>cycle_walking_cipher\<close> starts on its arguments.
\<close>

definition walk_step ::
  "(uint32 \<Rightarrow> uint32) \<Rightarrow> nat \<Rightarrow> uint32 \<Rightarrow> uint64 \<Rightarrow> int \<Rightarrow> halves \<Rightarrow> halves" where
  "walk_step hash_uint32 hsz mask' crypt_key direction s =
     swap_halves (feistel_rounds hash_uint32 hsz mask' crypt_key direction 0 s)"

definition attempt_result ::
  "(uint32 \<Rightarrow> uint32) \<Rightarrow> nat \<Rightarrow> uint32 \<Rightarrow> uint64 \<Rightarrow> int \<Rightarrow> halves \<Rightarrow> nat \<Rightarrow> uint64" where
  "attempt_result hash_uint32 hsz mask' crypt_key direction s n =
     block_result hsz
       (feistel_rounds hash_uint32 hsz mask' crypt_key direction 0
          ((walk_step hash_uint32 hsz mask' crypt_key direction ^^ n) s))"

definition walk_result ::
  "(uint32 \<Rightarrow> uint32) \<Rightarrow> int64 \<Rightarrow> int64 \<Rightarrow> int64 \<Rightarrow> uint64 \<Rightarrow> int \<Rightarrow> nat \<Rightarrow> uint64" where
  "walk_result hash_uint32 minval maxval val crypt_key direction n =
     attempt_result hash_uint32 (hsz_loop 1 (maxval - minval + 1))
       (hsz_mask (hsz_loop 1 (maxval - minval + 1))) (scramble_key hash_uint32 crypt_key)
       direction
       (initial_halves (hsz_loop 1 (maxval - minval + 1))
          (hsz_mask (hsz_loop 1 (maxval - minval + 1))) minval val) n"

text \<open>
  The Feistel Core on a block \<open>(l, r)\<close> of two halves, for a list of round subkeys: the
  rounds "applied ... in sequence, carrying state across rounds".  \<open>block_halves\<close> is the
  set of blocks whose halves fit the mask, \<open>halves_value\<close> reads a block as the integer
  \<open>(l << hsz) | r\<close>, and \<open>walk_perm\<close> is one attempt of the walk as a map on blocks: the
  \<open>NR\<close> rounds with the subkeys of the direction, then the exchange of the halves.
\<close>

definition spec_feistel ::
  "(uint32 \<Rightarrow> uint32) \<Rightarrow> uint32 \<Rightarrow> uint32 list \<Rightarrow> uint32 \<times> uint32 \<Rightarrow> uint32 \<times> uint32" where
  "spec_feistel mixing mask' subkeys lr = fold (spec_round mixing mask') subkeys lr"

definition block_halves :: "uint32 \<Rightarrow> (uint32 \<times> uint32) set" where
  "block_halves mask' = {lr. fst lr AND mask' = fst lr \<and> snd lr AND mask' = snd lr}"

definition halves_value :: "nat \<Rightarrow> uint32 \<times> uint32 \<Rightarrow> uint64" where
  "halves_value hsz lr = push_bit hsz (ucast (fst lr)) OR ucast (snd lr)"

definition walk_perm ::
  "(uint32 \<Rightarrow> uint32) \<Rightarrow> nat \<Rightarrow> uint32 \<Rightarrow> uint64 \<Rightarrow> int \<Rightarrow> uint32 \<times> uint32 \<Rightarrow> uint32 \<times> uint32" where
  "walk_perm hash_uint32 hsz mask' crypt_key direction lr =
     prod.swap (spec_feistel hash_uint32 mask'
       (map (round_Ki crypt_key hsz direction) [0, 1, 2, 3, 4, 5, 6, 7, 8]) lr)"

section \<open>Entry points\<close>

definition range_encrypt_element ::
  "(uint32 \<Rightarrow> uint32) \<Rightarrow> int64 \<Rightarrow> int64 \<Rightarrow> int64 \<Rightarrow> uint64 \<Rightarrow> error + int64" where
  "range_encrypt_element hash_uint32 clearval minval maxval crypt_key =
     (if clearval <s minval \<or> maxval <s clearval then Inl ValueOutOfRange
      else cycle_walking_cipher hash_uint32 minval maxval clearval crypt_key 0)"

definition range_decrypt_element ::
  "(uint32 \<Rightarrow> uint32) \<Rightarrow> int64 \<Rightarrow> int64 \<Rightarrow> int64 \<Rightarrow> uint64 \<Rightarrow> error + int64" where
  "range_decrypt_element hash_uint32 val minval maxval crypt_key =
     (if val <s minval \<or> maxval <s val then Inl ValueOutOfRange
      else cycle_walking_cipher hash_uint32 minval maxval val crypt_key 1)"

text \<open>
  A database sequence, as far as the extension uses it: the bounds that
  \<open>pg_sequence_parameters\<close> reports and the values that the coming calls of
  \<open>nextval_oid\<close> yield, in order.  \<open>nextval_oid\<close> takes the first of them, or fails when
  there is none.
\<close>

record sequence =
  seq_minval :: int64
  seq_maxval :: int64
  seq_pending :: "int64 list"

definition nextval_oid :: "sequence \<Rightarrow> error + (int64 \<times> sequence)" where
  "nextval_oid sq =
     (case seq_pending sq of
        [] \<Rightarrow> Inl SequenceExhausted
      | v # vs \<Rightarrow> Inr (v, sq\<lparr>seq_pending := vs\<rparr>))"

text \<open>
  \<open>permute_nextval\<close> returns its result together with the sequence as the call leaves
  it: a sequence is not rolled back when a later statement raises.
\<close>

definition permute_nextval ::
  "(uint32 \<Rightarrow> uint32) \<Rightarrow> sequence \<Rightarrow> uint64 \<Rightarrow> (error + int64) \<times> sequence" where
  "permute_nextval hash_uint32 sq crypt_key =
     (let minval = seq_minval sq; maxval = seq_maxval sq in
      if \<not> check_sequence_range minval maxval then (Inl RangeTooSmall, sq)
      else case nextval_oid sq of
             Inl e \<Rightarrow> (Inl e, sq)
           | Inr (nextval, sq') \<Rightarrow>
               if nextval <s minval \<or> maxval <s nextval then (Inl ValueOutOfRange, sq')
               else (cycle_walking_cipher hash_uint32 minval maxval nextval crypt_key 0, sq'))"

definition reverse_permute ::
  "(uint32 \<Rightarrow> uint32) \<Rightarrow> sequence \<Rightarrow> int64 \<Rightarrow> uint64 \<Rightarrow> error + int64" where
  "reverse_permute hash_uint32 sq val crypt_key =
     (let minval = seq_minval sq; maxval = seq_maxval sq in
      if maxval - minval <s 4 then Inl RangeTooSmall
      else if val <s minval \<or> maxval <s val then Inl ValueOutOfRange
      else cycle_walking_cipher hash_uint32 minval maxval val crypt_key 1)"

section \<open>Signed arithmetic on 64-bit words\<close>

lemma sint64_bounds: "- (2 ^ 63) \<le> sint (w :: 64 word) \<and> sint w < 2 ^ 63"
  using sint_ge [of w] sint_lt [of w] by simp

lemma sint_add64:
  "- (2 ^ 63) \<le> sint a + sint b \<Longrightarrow> sint a + sint b < 2 ^ 63 \<Longrightarrow> sint (a + b :: 64 word) = sint a + sint b"
  by (simp add: sint_word_ariths signed_take_bit_int_eq_self)

lemma sint_sub64:
  "- (2 ^ 63) \<le> sint a - sint b \<Longrightarrow> sint a - sint b < 2 ^ 63 \<Longrightarrow> sint (a - b :: 64 word) = sint a - sint b"
  by (simp add: sint_word_ariths signed_take_bit_int_eq_self)

lemma sint_MIN: "sint PG_INT64_MIN = - (2 ^ 63)"
  by (simp add: PG_INT64_MIN_def)

lemma sint_MAX: "sint PG_INT64_MAX = 2 ^ 63 - 1"
  by (simp add: PG_INT64_MAX_def)

lemma check_sequence_range_never_overflows:
  "check_sequence_range_checked minv maxv = Some (check_sequence_range minv maxv)"
proof -
  have b: "- (2 ^ 63) \<le> sint minv" "sint minv < 2 ^ 63" "- (2 ^ 63) \<le> sint maxv" "sint maxv < 2 ^ 63"
    using sint64_bounds by blast+
  consider (pos) "0 < sint minv" | (neg) "sint minv < 0" | (zero) "sint minv = 0" by linarith
  then show ?thesis
  proof cases
    case pos
    have lo: "sint (PG_INT64_MIN + minv) = - (2 ^ 63) + sint minv"
      using pos b by (simp add: sint_add64 sint_MIN)
    have a: "add64_checked PG_INT64_MIN minv = Some (PG_INT64_MIN + minv)"
      using pos b by (simp add: add64_checked_def sint_MIN)
    show ?thesis
    proof (cases "maxv <s PG_INT64_MIN + minv")
      case True
      then show ?thesis using pos a
        by (simp add: check_sequence_range_checked_def check_sequence_range_def word_sless_alt)
    next
      case False
      then have "- (2 ^ 63) \<le> sint maxv - sint minv" "sint maxv - sint minv < 2 ^ 63"
        using lo pos b by (simp_all add: word_sless_alt)
      then have "sub64_checked maxv minv = Some (maxv - minv)"
        by (simp add: sub64_checked_def)
      then show ?thesis using pos a False
        by (simp add: check_sequence_range_checked_def check_sequence_range_def word_sless_alt)
    qed
  next
    case neg
    have hi: "sint (PG_INT64_MAX + minv) = 2 ^ 63 - 1 + sint minv"
      using neg b by (simp add: sint_add64 sint_MAX)
    have a: "add64_checked PG_INT64_MAX minv = Some (PG_INT64_MAX + minv)"
      using neg b by (simp add: add64_checked_def sint_MAX)
    show ?thesis
    proof (cases "PG_INT64_MAX + minv <s maxv")
      case True
      then show ?thesis using neg a
        by (simp add: check_sequence_range_checked_def check_sequence_range_def word_sless_alt)
    next
      case False
      then have "- (2 ^ 63) \<le> sint maxv - sint minv" "sint maxv - sint minv < 2 ^ 63"
        using hi neg b by (simp_all add: word_sless_alt)
      then have "sub64_checked maxv minv = Some (maxv - minv)"
        by (simp add: sub64_checked_def)
      then show ?thesis using neg a False
        by (simp add: check_sequence_range_checked_def check_sequence_range_def word_sless_alt)
    qed
  next
    case zero
    then have "sub64_checked maxv minv = Some (maxv - minv)"
      using b by (simp add: sub64_checked_def)
    then show ?thesis using zero
      by (simp add: check_sequence_range_checked_def check_sequence_range_def word_sless_alt)
  qed
qed

lemma check_sequence_range_iff:
  assumes "minv \<le>s maxv"
  shows "check_sequence_range minv maxv \<longleftrightarrow> 3 \<le> sint maxv - sint minv"
proof -
  have b: "- (2 ^ 63) \<le> sint minv" "sint minv < 2 ^ 63" "- (2 ^ 63) \<le> sint maxv" "sint maxv < 2 ^ 63"
    using sint64_bounds by blast+
  have le: "sint minv \<le> sint maxv" using assms by (simp add: word_sle_eq)
  consider (pos) "0 < sint minv" | (neg) "sint minv < 0" | (zero) "sint minv = 0" by linarith
  then show ?thesis
  proof cases
    case pos
    have lo: "sint (PG_INT64_MIN + minv) = - (2 ^ 63) + sint minv"
      using pos b by (simp add: sint_add64 sint_MIN)
    have "sint (maxv - minv) = sint maxv - sint minv"
      using pos b le by (simp add: sint_sub64)
    then show ?thesis using pos lo le b
      by (simp add: check_sequence_range_def word_sless_alt word_sle_eq)
  next
    case neg
    have hi: "sint (PG_INT64_MAX + minv) = 2 ^ 63 - 1 + sint minv"
      using neg b by (simp add: sint_add64 sint_MAX)
    show ?thesis
    proof (cases "PG_INT64_MAX + minv <s maxv")
      case True
      then show ?thesis using neg hi by (simp add: check_sequence_range_def word_sless_alt)
    next
      case False
      then have "sint (maxv - minv) = sint maxv - sint minv"
        using hi neg b le by (simp add: sint_sub64 word_sless_alt)
      then show ?thesis using neg False
        by (simp add: check_sequence_range_def word_sless_alt word_sle_eq)
    qed
  next
    case zero
    then have "minv = 0" by (simp add: signed_eq_0_iff)
    then show ?thesis using zero by (simp add: check_sequence_range_def word_sle_eq)
  qed
qed

lemma uint_interval:
  "uint (maxval - minval + 1 :: 64 word) = (sint maxval - sint minval + 1) mod 2 ^ 64"
proof -
  have "maxval - minval + 1 = (word_of_int (sint maxval - sint minval + 1) :: 64 word)"
    by simp
  then show ?thesis by (simp only: uint_word_of_int) simp
qed

lemma uint_diff:
  "uint (maxval - minval :: 64 word) = (sint maxval - sint minval) mod 2 ^ 64"
proof -
  have "maxval - minval = (word_of_int (sint maxval - sint minval) :: 64 word)"
    by simp
  then show ?thesis by (simp only: uint_word_of_int) simp
qed

lemma push_bit_less_iff:
  assumes "h < 32"
  shows "(push_bit (2 * h) (1 :: 64 word) < interval) = ((4 :: nat) ^ h < unat interval)"
proof -
  have "2 * h < 64" using assms by simp
  then have "(2 :: nat) ^ (2 * h) < 2 ^ 64" by (rule power_strict_increasing) simp_all
  moreover have "(2 :: 64 word) ^ (2 * h) = of_nat (2 ^ (2 * h))" by simp
  ultimately have "unat ((2 :: 64 word) ^ (2 * h)) = 2 ^ (2 * h)"
    by (simp only: unat_of_nat) simp
  moreover have "(2 :: nat) ^ (2 * h) = 4 ^ h" by (simp add: power_mult)
  ultimately show ?thesis by (simp add: word_less_nat_alt)
qed

lemma hsz_loop_props:
  "1 \<le> h \<Longrightarrow> h \<le> 32 \<Longrightarrow> \<forall>j. 1 \<le> j \<and> j < h \<longrightarrow> (4 :: nat) ^ j < unat interval \<Longrightarrow>
   h \<le> hsz_loop h interval \<and> hsz_loop h interval \<le> 32 \<and>
   (hsz_loop h interval < 32 \<longrightarrow> unat interval \<le> 4 ^ hsz_loop h interval) \<and>
   (\<forall>j. 1 \<le> j \<and> j < hsz_loop h interval \<longrightarrow> (4 :: nat) ^ j < unat interval)"
proof (induction h interval rule: hsz_loop.induct)
  case (1 hsz interval)
  show ?case
  proof (cases "hsz < 32 \<and> push_bit (2 * hsz) (1 :: 64 word) < interval")
    case True
    then have lt: "(4 :: nat) ^ hsz < unat interval"
      using push_bit_less_iff [of hsz interval] by blast
    have inv: "\<forall>j. 1 \<le> j \<and> j < hsz + 1 \<longrightarrow> (4 :: nat) ^ j < unat interval"
      using "1.prems"(3) lt by (metis Suc_eq_plus1 less_Suc_eq)
    have eq: "hsz_loop hsz interval = hsz_loop (hsz + 1) interval"
      using True by (subst hsz_loop.simps) simp
    from "1.IH" [OF True _ _ inv] True show ?thesis
      unfolding eq by auto
  next
    case False
    then have eq: "hsz_loop hsz interval = hsz" by (subst hsz_loop.simps) auto
    have "hsz < 32 \<longrightarrow> unat interval \<le> 4 ^ hsz"
      using False push_bit_less_iff [of hsz interval] by (auto simp: not_less)
    then show ?thesis unfolding eq using "1.prems" by simp
  qed
qed

lemma pg_hash_uint32_1: "sint (pg_hash_uint32 1) = - 1905060026"
  by code_simp

section \<open>Range validation: results\<close>

text \<open>
  C4 says that the validation of the full 64-bit range, \<open>minval = -2^63\<close> and
  \<open>maxval = 2^63 - 1\<close>, overflows nowhere and reports the range as valid, on the
  encrypt path and on the decrypt path.  On the encrypt path it does:
  \<open>check_sequence_range\<close>, the check of \<open>permute_nextval\<close>, evaluates this range as
  valid without overflow (and overflows on no input, lemma
  \<open>check_sequence_range_never_overflows\<close>).  On the decrypt path it does not: the check
  of \<open>reverse_permute\<close>, \<open>maxval - minval < 4\<close>, subtracts with overflow (the checked
  subtraction has no result), the wrapped difference is \<open>-1\<close>, and the function reports
  the sequence as too short, whatever the value and the key.
\<close>

theorem C4_reverse_permute_full_range:
  "reverse_permute h \<lparr>seq_minval = PG_INT64_MIN, seq_maxval = PG_INT64_MAX, seq_pending = vs\<rparr> v key
     = Inl RangeTooSmall \<and>
   sub64_checked PG_INT64_MAX PG_INT64_MIN = None \<and>
   check_sequence_range_checked PG_INT64_MIN PG_INT64_MAX = Some True"
  by (simp add: reverse_permute_def sub64_checked_def check_sequence_range_checked_def
      add64_checked_def PG_INT64_MIN_def PG_INT64_MAX_def word_sless_alt word_sle_eq)

section \<open>Entry points: validation\<close>

text \<open>The cipher raises one error only, and \<open>nextval_oid\<close> one only.\<close>

lemma cycle_walking_cipher_errors:
  "cycle_walking_cipher h minval maxval v key dir = Inl e \<Longrightarrow> e = CycleLimitExceeded"
  by (auto simp: cycle_walking_cipher_def Let_def split: prod.splits if_splits)

lemma nextval_oid_errors: "nextval_oid sq = Inl e \<Longrightarrow> e = SequenceExhausted"
  by (auto simp: nextval_oid_def split: list.splits)

text \<open>
  C3, as the claim states it, fails: \<open>range_encrypt_element\<close> and
  \<open>range_decrypt_element\<close> have no check of the size of the range.  On the
  three-element range \<open>[0, 2]\<close> both return a value.
\<close>

theorem C3_three_element_range_counterexample:
  "range_encrypt_element pg_hash_uint32 0 0 2 0 = Inr 2 \<and>
   range_encrypt_element pg_hash_uint32 0 0 2 0 \<noteq> Inl RangeTooSmall \<and>
   range_decrypt_element pg_hash_uint32 0 0 2 0 = Inr 1 \<and>
   range_decrypt_element pg_hash_uint32 0 0 2 0 \<noteq> Inl RangeTooSmall"
proof -
  have a: "range_encrypt_element pg_hash_uint32 0 0 2 0 = Inr 2" by code_simp
  have b: "range_decrypt_element pg_hash_uint32 0 0 2 0 = Inr 1" by code_simp
  from a b show ?thesis by simp
qed

text \<open>
  C3, amended.  \<open>permute_nextval\<close> accepts a sequence of exactly 4 elements
  (\<open>maxval - minval = 3\<close>) and rejects one of 3 elements (\<open>maxval - minval = 2\<close>) with
  \<open>RangeTooSmall\<close>, leaving the sequence as it was: the check comes before
  \<open>nextval_oid\<close> and before the cipher.  \<open>reverse_permute\<close> rejects a sequence of 3
  elements with \<open>RangeTooSmall\<close>, whatever the value and the key.
  \<open>range_encrypt_element\<close> and \<open>range_decrypt_element\<close> never raise
  \<open>RangeTooSmall\<close>.
\<close>

theorem C3_range_size_checks:
  "(sint (seq_maxval sq) - sint (seq_minval sq) = 3 \<longrightarrow>
      fst (permute_nextval h sq key) \<noteq> Inl RangeTooSmall) \<and>
   (sint (seq_maxval sq) - sint (seq_minval sq) = 2 \<longrightarrow>
      permute_nextval h sq key = (Inl RangeTooSmall, sq) \<and>
      reverse_permute h sq v key = Inl RangeTooSmall) \<and>
   range_encrypt_element h v minval maxval key \<noteq> Inl RangeTooSmall \<and>
   range_decrypt_element h v minval maxval key \<noteq> Inl RangeTooSmall"
proof -
  have four: "fst (permute_nextval h sq key) \<noteq> Inl RangeTooSmall"
    if d: "sint (seq_maxval sq) - sint (seq_minval sq) = 3"
  proof -
    have "seq_minval sq \<le>s seq_maxval sq" using d by (simp add: word_sle_eq)
    then have chk: "check_sequence_range (seq_minval sq) (seq_maxval sq)"
      using d by (simp add: check_sequence_range_iff)
    show ?thesis
      using chk
      by (auto simp: permute_nextval_def Let_def split: sum.splits prod.splits
          dest: nextval_oid_errors cycle_walking_cipher_errors)
  qed
  have three: "permute_nextval h sq key = (Inl RangeTooSmall, sq) \<and>
      reverse_permute h sq v key = Inl RangeTooSmall"
    if d: "sint (seq_maxval sq) - sint (seq_minval sq) = 2"
  proof -
    have le: "seq_minval sq \<le>s seq_maxval sq" using d by (simp add: word_sle_eq)
    then have chk: "\<not> check_sequence_range (seq_minval sq) (seq_maxval sq)"
      using d by (simp add: check_sequence_range_iff)
    have "sint (seq_maxval sq - seq_minval sq) = 2"
      using d by (simp add: sint_sub64)
    then have "seq_maxval sq - seq_minval sq <s 4"
      by (simp add: word_sless_alt)
    then show ?thesis using chk
      by (simp add: permute_nextval_def reverse_permute_def Let_def)
  qed
  have enc: "range_encrypt_element h v minval maxval key \<noteq> Inl RangeTooSmall"
    by (auto simp: range_encrypt_element_def dest: cycle_walking_cipher_errors)
  have dec: "range_decrypt_element h v minval maxval key \<noteq> Inl RangeTooSmall"
    by (auto simp: range_decrypt_element_def dest: cycle_walking_cipher_errors)
  from four three enc dec show ?thesis by blast
qed

theorem C3_range_size_checks_witness:
  "sint (8 :: int64) - sint (5 :: int64) = 3 \<and>
   fst (permute_nextval pg_hash_uint32 \<lparr>seq_minval = 5, seq_maxval = 8, seq_pending = [5]\<rparr> 0)
     \<noteq> Inl RangeTooSmall \<and>
   sint (2 :: int64) - sint (0 :: int64) = 2 \<and>
   permute_nextval pg_hash_uint32 \<lparr>seq_minval = 0, seq_maxval = 2, seq_pending = [0]\<rparr> 0 =
     (Inl RangeTooSmall, \<lparr>seq_minval = 0, seq_maxval = 2, seq_pending = [0]\<rparr>) \<and>
   reverse_permute pg_hash_uint32 \<lparr>seq_minval = 0, seq_maxval = 2, seq_pending = [0]\<rparr> 1 0 =
     Inl RangeTooSmall"
  using C3_range_size_checks
      [of "\<lparr>seq_minval = 5, seq_maxval = 8, seq_pending = [5]\<rparr>" pg_hash_uint32 0]
    C3_range_size_checks
      [of "\<lparr>seq_minval = 0, seq_maxval = 2, seq_pending = [0]\<rparr>" pg_hash_uint32 0 1]
  by simp

text \<open>
  \<open>reverse_permute\<close> on a sequence of exactly 4 elements: its check is
  \<open>maxval - minval < 4\<close>, so it rejects the sequence that \<open>permute_nextval\<close> accepts.
\<close>

lemma reverse_permute_rejects_four:
  assumes "sint (seq_maxval sq) - sint (seq_minval sq) = 3"
  shows "reverse_permute h sq v key = Inl RangeTooSmall"
proof -
  have "sint (seq_maxval sq - seq_minval sq) = 3"
    using assms by (simp add: sint_sub64)
  then have "seq_maxval sq - seq_minval sq <s 4"
    by (simp add: word_sless_alt)
  then show ?thesis by (simp add: reverse_permute_def Let_def)
qed

text \<open>
  C9.  \<open>range_encrypt_element\<close> and \<open>range_decrypt_element\<close> raise
  \<open>ValueOutOfRange\<close> exactly when the value is below \<open>minval\<close> or above \<open>maxval\<close>
  (as signed 64-bit integers): a value equal to \<open>minval\<close> or to \<open>maxval\<close> is accepted,
  \<open>minval - 1\<close> and \<open>maxval + 1\<close> are rejected.  For a value out of range the result is
  this error whatever the hash function and the key: the check is made before the cipher
  is entered, and the functions have no state to change.
\<close>

theorem C9_value_out_of_range:
  "((range_encrypt_element h v minval maxval key = Inl ValueOutOfRange) =
      (sint v < sint minval \<or> sint maxval < sint v)) \<and>
   ((range_decrypt_element h v minval maxval key = Inl ValueOutOfRange) =
      (sint v < sint minval \<or> sint maxval < sint v)) \<and>
   (sint minval \<le> sint maxval \<longrightarrow>
      range_encrypt_element h minval minval maxval key \<noteq> Inl ValueOutOfRange \<and>
      range_encrypt_element h maxval minval maxval key \<noteq> Inl ValueOutOfRange \<and>
      range_decrypt_element h minval minval maxval key \<noteq> Inl ValueOutOfRange \<and>
      range_decrypt_element h maxval minval maxval key \<noteq> Inl ValueOutOfRange) \<and>
   (sint v = sint minval - 1 \<or> sint v = sint maxval + 1 \<longrightarrow>
      range_encrypt_element h v minval maxval key = Inl ValueOutOfRange \<and>
      range_decrypt_element h v minval maxval key = Inl ValueOutOfRange) \<and>
   (sint v < sint minval \<or> sint maxval < sint v \<longrightarrow>
      (\<forall>h' key'. range_encrypt_element h' v minval maxval key' = Inl ValueOutOfRange \<and>
                range_decrypt_element h' v minval maxval key' = Inl ValueOutOfRange))"
proof -
  have enc: "(range_encrypt_element h' w minval maxval key' = Inl ValueOutOfRange) =
      (sint w < sint minval \<or> sint maxval < sint w)" for h' w key'
    by (auto simp: range_encrypt_element_def word_sless_alt dest: cycle_walking_cipher_errors)
  have dec: "(range_decrypt_element h' w minval maxval key' = Inl ValueOutOfRange) =
      (sint w < sint minval \<or> sint maxval < sint w)" for h' w key'
    by (auto simp: range_decrypt_element_def word_sless_alt dest: cycle_walking_cipher_errors)
  show ?thesis by (simp add: enc dec)
qed

theorem C9_value_out_of_range_witness:
  "sint (5 :: int64) \<le> sint (8 :: int64) \<and>
   range_encrypt_element pg_hash_uint32 5 5 8 0 \<noteq> Inl ValueOutOfRange \<and>
   range_encrypt_element pg_hash_uint32 8 5 8 0 \<noteq> Inl ValueOutOfRange \<and>
   range_decrypt_element pg_hash_uint32 5 5 8 0 \<noteq> Inl ValueOutOfRange \<and>
   range_decrypt_element pg_hash_uint32 8 5 8 0 \<noteq> Inl ValueOutOfRange \<and>
   sint (4 :: int64) = sint (5 :: int64) - 1 \<and>
   range_encrypt_element pg_hash_uint32 4 5 8 0 = Inl ValueOutOfRange \<and>
   range_decrypt_element pg_hash_uint32 4 5 8 0 = Inl ValueOutOfRange \<and>
   sint (9 :: int64) = sint (8 :: int64) + 1 \<and>
   range_encrypt_element pg_hash_uint32 9 5 8 0 = Inl ValueOutOfRange \<and>
   range_decrypt_element pg_hash_uint32 9 5 8 0 = Inl ValueOutOfRange \<and>
   range_encrypt_element (\<lambda>x. 0) 9 5 8 77 = Inl ValueOutOfRange"
  using C9_value_out_of_range [of pg_hash_uint32 5 5 8 0]
    C9_value_out_of_range [of pg_hash_uint32 4 5 8 0]
    C9_value_out_of_range [of pg_hash_uint32 9 5 8 0]
  by simp

section \<open>Entry points: one cipher\<close>




section \<open>The half-block width\<close>

text \<open>
  C5, as the claim states it, fails at both ends.  For a range of one element
  (\<open>minval = maxval = 0\<close>) the width is 1 and the working domain has 4 values, which is
  not less than \<open>4 * interval_size = 4\<close>.  For the full 64-bit range the \<open>uint64\<close>
  \<open>interval\<close> wraps to 0, the loop stops at once with width 1, and the working domain of 4
  values is smaller than the interval of \<open>2^64\<close> values.
\<close>

theorem C5_hsz_counterexample:
  "(0 :: int64) \<le>s 0 \<and> hsz_loop 1 (0 - 0 + 1) = 1 \<and>
   \<not> ((4 :: int) ^ hsz_loop 1 (0 - 0 + 1) < 4 * (sint (0 :: int64) - sint (0 :: int64) + 1)) \<and>
   PG_INT64_MIN \<le>s PG_INT64_MAX \<and>
   hsz_loop 1 (PG_INT64_MAX - PG_INT64_MIN + 1) = 1 \<and>
   \<not> (sint PG_INT64_MAX - sint PG_INT64_MIN + 1
        \<le> (4 :: int) ^ hsz_loop 1 (PG_INT64_MAX - PG_INT64_MIN + 1))"
proof -
  have a: "hsz_loop 1 (0 - 0 + 1) = 1" by code_simp
  have b: "hsz_loop 1 (PG_INT64_MAX - PG_INT64_MIN + 1) = 1" by code_simp
  have c: "PG_INT64_MIN \<le>s PG_INT64_MAX" by (simp add: word_sle_eq sint_MIN sint_MAX)
  show ?thesis unfolding a b using c by (simp add: sint_MIN sint_MAX)
qed

text \<open>
  C5, amended.  For every range with \<open>minval \<le> maxval\<close> other than the full 64-bit range
  (\<open>interval_size = maxval - minval + 1 < 2^64\<close>), the width \<open>hsz\<close> computed by the loop is
  the smallest integer \<open>\<ge> 1\<close> with \<open>2^(2*hsz) \<ge> interval_size\<close>; it is at most 32; the
  working domain of \<open>2^(2*hsz) = 4^hsz\<close> values is \<open>\<ge> interval_size\<close>, and it is
  \<open>< 4 * interval_size\<close> whenever \<open>interval_size \<ge> 2\<close>.
\<close>

theorem C5_hsz_smallest:
  assumes "minval \<le>s maxval" and "sint maxval - sint minval + 1 < 2 ^ 64"
  shows "let n = sint maxval - sint minval + 1;
             hsz = hsz_loop 1 (maxval - minval + 1)
         in 1 \<le> hsz \<and> hsz \<le> 32 \<and> n \<le> 4 ^ hsz \<and>
            (\<forall>j. 1 \<le> j \<and> n \<le> 4 ^ j \<longrightarrow> hsz \<le> j) \<and>
            (2 \<le> n \<longrightarrow> 4 ^ hsz < 4 * n)"
proof -
  define n where "n = sint maxval - sint minval + 1"
  define interval where "interval = maxval - minval + 1"
  define k where "k = hsz_loop 1 interval"
  have n1: "1 \<le> n" using assms(1) by (simp add: n_def word_sle_eq)
  have n2: "n < 2 ^ 64" using assms(2) by (simp add: n_def)
  have "uint interval = n mod 2 ^ 64"
    unfolding interval_def n_def by (rule uint_interval)
  then have un: "int (unat interval) = n" using n1 n2 by simp
  have props: "1 \<le> k" "k \<le> 32" "k < 32 \<longrightarrow> unat interval \<le> 4 ^ k"
    "\<forall>j. 1 \<le> j \<and> j < k \<longrightarrow> (4 :: nat) ^ j < unat interval"
    using hsz_loop_props [of 1 interval] unfolding k_def by auto
  have ub: "n \<le> 4 ^ k"
  proof (cases "k < 32")
    case True
    then have "int (unat interval) \<le> int (4 ^ k)" using props(3) by (simp only: of_nat_le_iff) 
    then show ?thesis using un by simp
  next
    case False
    then have "k = 32" using props(2) by simp
    then show ?thesis using n2 by simp
  qed
  have below: "int (4 ^ j) < n" if "1 \<le> j" "j < k" for j
  proof -
    have "(4 :: nat) ^ j < unat interval" using props(4) that by blast
    then have "int (4 ^ j) < int (unat interval)" by (simp only: of_nat_less_iff)
    then show ?thesis using un by simp
  qed
  have least: "\<forall>j. 1 \<le> j \<and> n \<le> 4 ^ j \<longrightarrow> k \<le> j"
  proof (intro allI impI)
    fix j assume j: "1 \<le> j \<and> n \<le> 4 ^ j"
    show "k \<le> j"
    proof (rule ccontr)
      assume "\<not> k \<le> j"
      then have "int (4 ^ j) < n" using below [of j] j by simp
      then show False using j by simp
    qed
  qed
  have tight: "4 ^ k < 4 * n" if "2 \<le> n"
  proof (cases "k = 1")
    case True
    then show ?thesis using that by simp
  next
    case False
    then have "1 \<le> k - 1" "k - 1 < k" using props(1) by simp_all
    then have "int (4 ^ (k - 1)) < n" by (rule below)
    moreover have "(4 :: int) ^ k = 4 * 4 ^ (k - 1)"
      using props(1) by (cases k) simp_all
    ultimately show ?thesis by simp
  qed
  from props(1,2) ub least tight
  have "1 \<le> k \<and> k \<le> 32 \<and> n \<le> 4 ^ k \<and>
        (\<forall>j. 1 \<le> j \<and> n \<le> 4 ^ j \<longrightarrow> k \<le> j) \<and> (2 \<le> n \<longrightarrow> 4 ^ k < 4 * n)"
    by blast
  then show ?thesis unfolding Let_def n_def k_def interval_def .
qed

theorem C5_hsz_smallest_witness:
  "(0 :: int64) \<le>s 999 \<and> sint (999 :: int64) - sint (0 :: int64) + 1 < (2 :: int) ^ 64 \<and>
   hsz_loop 1 (999 - 0 + 1) = 5 \<and>
   (1000 :: int) \<le> 4 ^ hsz_loop 1 (999 - 0 + 1) \<and>
   \<not> (\<exists>j. 1 \<le> j \<and> (1000 :: int) \<le> 4 ^ j \<and> j < hsz_loop 1 (999 - 0 + 1)) \<and>
   (4 :: int) ^ hsz_loop 1 (999 - 0 + 1) < 4 * 1000"
proof -
  have h: "(0 :: int64) \<le>s 999" "sint (999 :: int64) - sint (0 :: int64) + 1 < (2 :: int) ^ 64"
    by (simp_all add: word_sle_eq)
  have v: "hsz_loop 1 (999 - 0 + 1) = 5" by code_simp
  have "1 \<le> hsz_loop 1 (999 - 0 + 1) \<and> hsz_loop 1 (999 - 0 + 1) \<le> 32 \<and>
      (1000 :: int) \<le> 4 ^ hsz_loop 1 (999 - 0 + 1) \<and>
      (\<forall>j. 1 \<le> j \<and> (1000 :: int) \<le> 4 ^ j \<longrightarrow> hsz_loop 1 (999 - 0 + 1) \<le> j) \<and>
      (4 :: int) ^ hsz_loop 1 (999 - 0 + 1) < 4 * 1000"
    using C5_hsz_smallest [OF h] by (simp add: Let_def)
  then show ?thesis using h v by (auto simp: not_less)
qed

section \<open>The round subkey\<close>

text \<open>
  What the two statements compute: the low 32 bits of the scrambled key shifted right by
  \<open>(hsz * j) mod 64\<close>, plus \<open>j\<close>, where \<open>j\<close> is \<open>i\<close> when encrypting and \<open>NR - 1 - i\<close>
  when decrypting; so round \<open>i\<close> of a decryption uses the subkey of round \<open>NR - 1 - i\<close>
  of the encryption.
\<close>

lemma and_63: "(n :: nat) AND 0x3f = n mod 64"
proof -
  have "(0x3f :: nat) = mask 6" by (simp add: mask_eq_exp_minus_1)
  then have "n AND 0x3f = take_bit 6 n" by (simp only: take_bit_eq_mask)
  then show ?thesis by (simp add: take_bit_eq_mod)
qed

lemma round_Ki_eq:
  "round_Ki crypt_key hsz direction i =
     ucast (drop_bit ((hsz * (if direction = 0 then i else NR - 1 - i)) mod 64) crypt_key)
       + of_nat (if direction = 0 then i else NR - 1 - i)"
  by (simp add: round_Ki_def Let_def and_63)

lemma round_Ki_reverse:
  "i < NR \<Longrightarrow> direction \<noteq> 0 \<Longrightarrow> round_Ki crypt_key hsz direction i = round_Ki crypt_key hsz 0 (NR - 1 - i)"
  by (simp add: round_Ki_def)

text \<open>
  C7 says that the subkey of a round is a sliding, wrapping window of \<open>hsz\<close> bits of
  the scrambled key, starting at bit \<open>(hsz * j) mod 64\<close>, plus \<open>j\<close>; the comment in the
  source says the same ("a sliding and cycling window of hsz bits over K").  At the
  first round of an encryption over a range of 4 elements (\<open>hsz = 1\<close>, \<open>j = 0\<close>) with the
  key 0 this window is one bit, and the subkey would be 1.  The code takes no window of
  \<open>hsz\<close> bits: the subkey is the whole low half of the scrambled key,
  \<open>hash_uint32 0 = 4022255791\<close>.  The same for the scrambled key of 64 ones, whatever
  key scrambles to it: the code's subkey is 32 ones, the window of one bit is 1.
\<close>

theorem C7_round_subkey_first_round:
  "scramble_key pg_hash_uint32 0 = 17275457082513866927 \<and>
   round_Ki 17275457082513866927 1 0 0 = 4022255791 \<and>
   spec_round_subkey 17275457082513866927 1 0 = 1 \<and>
   round_Ki 0xFFFFFFFFFFFFFFFF 1 0 0 = 0xFFFFFFFF \<and>
   spec_round_subkey 0xFFFFFFFFFFFFFFFF 1 0 = 1"
proof -
  have k: "scramble_key pg_hash_uint32 0 = 17275457082513866927" by code_simp
  have a: "round_Ki 17275457082513866927 1 0 0 = 4022255791" by code_simp
  have b: "spec_round_subkey 17275457082513866927 1 0 = 1" by code_simp
  have c: "round_Ki 0xFFFFFFFFFFFFFFFF 1 0 0 = 0xFFFFFFFF" by code_simp
  have d: "spec_round_subkey 0xFFFFFFFFFFFFFFFF 1 0 = 1" by code_simp
  from k a b c d show ?thesis by simp
qed

section \<open>The Feistel network\<close>

lemma hsz_mask_eq: "hsz_mask hsz = mask hsz"
  by (simp add: hsz_mask_def mask_eq_exp_minus_1)

lemma feistel_rounds_unrolled:
  "feistel_rounds h hsz m k dir 0 s =
     feistel_round h hsz m k dir 8 (feistel_round h hsz m k dir 7 (feistel_round h hsz m k dir 6
    (feistel_round h hsz m k dir 5 (feistel_round h hsz m k dir 4 (feistel_round h hsz m k dir 3
    (feistel_round h hsz m k dir 2 (feistel_round h hsz m k dir 1 (feistel_round h hsz m k dir 0
      s))))))))"
proof -
  have step: "feistel_rounds h hsz m k dir i t =
      feistel_rounds h hsz m k dir i' (feistel_round h hsz m k dir i t)"
    if "i < 9" "i' = i + 1" for i i' t
    using that by (subst feistel_rounds.simps) (simp add: NR_def)
  have fin: "feistel_rounds h hsz m k dir 9 t = t" for t
    by (subst feistel_rounds.simps) (simp add: NR_def)
  have "feistel_rounds h hsz m k dir 0 s =
      feistel_rounds h hsz m k dir 1
       (feistel_round h hsz m k dir 0 s)"
    by (rule step) simp_all
  also have "\<dots> =
      feistel_rounds h hsz m k dir 2
       (feistel_round h hsz m k dir 1 (feistel_round h hsz m k dir 0 s))"
    by (rule step) simp_all
  also have "\<dots> =
      feistel_rounds h hsz m k dir 3
       (feistel_round h hsz m k dir 2 (feistel_round h hsz m k dir 1 (feistel_round h hsz m k dir 0 s)))"
    by (rule step) simp_all
  also have "\<dots> =
      feistel_rounds h hsz m k dir 4
       (feistel_round h hsz m k dir 3 (feistel_round h hsz m k dir 2 (feistel_round h hsz m k dir 1 (feistel_round h hsz m k dir 0 s))))"
    by (rule step) simp_all
  also have "\<dots> =
      feistel_rounds h hsz m k dir 5
       (feistel_round h hsz m k dir 4 (feistel_round h hsz m k dir 3 (feistel_round h hsz m k dir 2 (feistel_round h hsz m k dir 1 (feistel_round h hsz m k dir 0 s)))))"
    by (rule step) simp_all
  also have "\<dots> =
      feistel_rounds h hsz m k dir 6
       (feistel_round h hsz m k dir 5 (feistel_round h hsz m k dir 4 (feistel_round h hsz m k dir 3 (feistel_round h hsz m k dir 2 (feistel_round h hsz m k dir 1 (feistel_round h hsz m k dir 0 s))))))"
    by (rule step) simp_all
  also have "\<dots> =
      feistel_rounds h hsz m k dir 7
       (feistel_round h hsz m k dir 6 (feistel_round h hsz m k dir 5 (feistel_round h hsz m k dir 4 (feistel_round h hsz m k dir 3 (feistel_round h hsz m k dir 2 (feistel_round h hsz m k dir 1 (feistel_round h hsz m k dir 0 s)))))))"
    by (rule step) simp_all
  also have "\<dots> =
      feistel_rounds h hsz m k dir 8
       (feistel_round h hsz m k dir 7 (feistel_round h hsz m k dir 6 (feistel_round h hsz m k dir 5 (feistel_round h hsz m k dir 4 (feistel_round h hsz m k dir 3 (feistel_round h hsz m k dir 2 (feistel_round h hsz m k dir 1 (feistel_round h hsz m k dir 0 s))))))))"
    by (rule step) simp_all
  also have "\<dots> =
      feistel_rounds h hsz m k dir 9
       (feistel_round h hsz m k dir 8 (feistel_round h hsz m k dir 7 (feistel_round h hsz m k dir 6 (feistel_round h hsz m k dir 5 (feistel_round h hsz m k dir 4 (feistel_round h hsz m k dir 3 (feistel_round h hsz m k dir 2 (feistel_round h hsz m k dir 1 (feistel_round h hsz m k dir 0 s)))))))))"
    by (rule step) simp_all
  also have "\<dots> = feistel_round h hsz m k dir 8 (feistel_round h hsz m k dir 7 (feistel_round h hsz m k dir 6 (feistel_round h hsz m k dir 5 (feistel_round h hsz m k dir 4 (feistel_round h hsz m k dir 3 (feistel_round h hsz m k dir 2 (feistel_round h hsz m k dir 1 (feistel_round h hsz m k dir 0 s))))))))"
    by (rule fin)
  finally show ?thesis .
qed

lemma feistel_round_halves:
  "(l1 (feistel_round h hsz m k dir i s), r1 (feistel_round h hsz m k dir i s)) =
     spec_round h m (round_Ki k hsz dir i) (l1 s, r1 s)"
  by (simp add: feistel_round_def spec_round_def Let_def)

lemma feistel_round_temps:
  "l2 (feistel_round h hsz m k dir i s) = l1 (feistel_round h hsz m k dir i s) \<and>
   r2 (feistel_round h hsz m k dir i s) = r1 (feistel_round h hsz m k dir i s)"
  by (simp add: feistel_round_def Let_def)



lemma block_result_bound:
  assumes "hsz \<le> 32" "take_bit hsz l = l" "take_bit hsz r = r"
  shows "unat (push_bit hsz (ucast (r :: uint32)) OR ucast (l :: uint32) :: uint64) < 2 ^ (2 * hsz)"
proof -
  let ?w = "push_bit hsz (ucast r) OR ucast l :: uint64"
  have bl: "\<not> bit l n" if "hsz \<le> n" for n
  proof -
    have "bit (take_bit hsz l) n = bit l n" by (simp only: assms(2))
    then show ?thesis using that by (simp add: bit_take_bit_iff)
  qed
  have br: "\<not> bit r n" if "hsz \<le> n" for n
  proof -
    have "bit (take_bit hsz r) n = bit r n" by (simp only: assms(3))
    then show ?thesis using that by (simp add: bit_take_bit_iff)
  qed
  have "take_bit (2 * hsz) ?w = ?w"
  proof (rule bit_eqI)
    fix n
    show "bit (take_bit (2 * hsz) ?w) n = bit ?w n"
    proof (cases "n < 2 * hsz")
      case True
      then show ?thesis by (simp add: bit_simps)
    next
      case False
      then have "hsz \<le> n" "hsz \<le> n - hsz" by simp_all
      then have "\<not> bit l n" "\<not> bit r (n - hsz)" using bl br by blast+
      then show ?thesis using False by (simp add: bit_simps)
    qed
  qed
  then have "unat (take_bit (2 * hsz) ?w) = unat ?w" by (rule arg_cong)
  then have "take_bit (2 * hsz) (unat ?w) = unat ?w" by (simp only: unsigned_take_bit_eq)
  moreover have "take_bit (2 * hsz) (unat ?w) < 2 ^ (2 * hsz)" by (rule take_bit_nat_less_exp)
  ultimately show ?thesis by simp
qed





lemma l1_feistel_round: "l1 (feistel_round h hsz m k dir i s) = r1 s"
  by (simp add: feistel_round_def Let_def)

lemma r1_feistel_round_masked:
  "take_bit hsz (r1 (feistel_round h hsz (hsz_mask hsz) k dir i s)) =
     r1 (feistel_round h hsz (hsz_mask hsz) k dir i s)"
  by (simp add: feistel_round_def Let_def hsz_mask_eq flip: take_bit_eq_mask)

text \<open>
  C8.  One pass of the round loop is exactly \<open>NR = 9\<close> rounds, each the round of the
  specification (new right half \<open>(l XOR hash(r) XOR hash(subkey)) & mask\<close>, new left half
  the previous right half) applied to the halves the round before left, with the subkeys
  of rounds 0 to 8 in this order.  The result is reassembled as \<open>(r << hsz) | l\<close>; it
  is at most \<open>2^(2*hsz) - 1\<close> for \<open>hsz < 32\<close> with the mask \<open>(1 << hsz) - 1\<close>, and for
  \<open>hsz = 32\<close> whatever the mask.
\<close>

theorem C8_feistel_network:
  "NR = 9 \<and>
   (let s' = feistel_rounds h hsz m k dir 0 s in
      (l1 s', r1 s') =
        spec_round h m (round_Ki k hsz dir 8) (spec_round h m (round_Ki k hsz dir 7)
       (spec_round h m (round_Ki k hsz dir 6) (spec_round h m (round_Ki k hsz dir 5)
       (spec_round h m (round_Ki k hsz dir 4) (spec_round h m (round_Ki k hsz dir 3)
       (spec_round h m (round_Ki k hsz dir 2) (spec_round h m (round_Ki k hsz dir 1)
       (spec_round h m (round_Ki k hsz dir 0) (l1 s, r1 s))))))))) \<and>
      block_result hsz s' = push_bit hsz (ucast (r1 s')) OR ucast (l1 s') \<and>
      (hsz < 32 \<and> m = hsz_mask hsz \<or> hsz = 32 \<longrightarrow>
         unat (block_result hsz s') \<le> 2 ^ (2 * hsz) - 1))"
proof -
  define s' where "s' = feistel_rounds h hsz m k dir 0 s"
  have rounds: "(l1 s', r1 s') =
        spec_round h m (round_Ki k hsz dir 8) (spec_round h m (round_Ki k hsz dir 7)
       (spec_round h m (round_Ki k hsz dir 6) (spec_round h m (round_Ki k hsz dir 5)
       (spec_round h m (round_Ki k hsz dir 4) (spec_round h m (round_Ki k hsz dir 3)
       (spec_round h m (round_Ki k hsz dir 2) (spec_round h m (round_Ki k hsz dir 1)
       (spec_round h m (round_Ki k hsz dir 0) (l1 s, r1 s)))))))))"
    unfolding s'_def feistel_rounds_unrolled by (simp only: feistel_round_halves)
  have res: "block_result hsz s' = push_bit hsz (ucast (r1 s')) OR ucast (l1 s')"
    by (simp add: block_result_def)
  have bound: "unat (block_result hsz s') \<le> 2 ^ (2 * hsz) - 1" if "hsz < 32" "m = hsz_mask hsz"
  proof -
    have "take_bit hsz (l1 s') = l1 s'" "take_bit hsz (r1 s') = r1 s'"
      unfolding s'_def feistel_rounds_unrolled that(2)
      by (simp_all only: l1_feistel_round r1_feistel_round_masked)
    then have "unat (block_result hsz s') < 2 ^ (2 * hsz)"
      unfolding block_result_def using that(1) by (intro block_result_bound) simp
    then show ?thesis by simp
  qed
  have bound32: "unat (block_result hsz s') \<le> 2 ^ (2 * hsz) - 1" if "hsz = 32"
  proof -
    have "unat (block_result hsz s') < 2 ^ 64"
      using unsigned_less [of "block_result hsz s'"] by simp
    then show ?thesis using that by simp
  qed
  from rounds res bound bound32 show ?thesis
    unfolding Let_def s'_def [symmetric] by (auto simp: NR_def)
qed

theorem C8_feistel_network_witness:
  "(5 :: nat) < 32 \<and> hsz_mask 5 = hsz_mask 5 \<and>
   (l1 (feistel_rounds pg_hash_uint32 5 (hsz_mask 5) (scramble_key pg_hash_uint32 0x123456789ABCDEF0)
          0 0 (initial_halves 5 (hsz_mask 5) 0 0)),
    r1 (feistel_rounds pg_hash_uint32 5 (hsz_mask 5) (scramble_key pg_hash_uint32 0x123456789ABCDEF0)
          0 0 (initial_halves 5 (hsz_mask 5) 0 0))) = (9, 31) \<and>
   block_result 5
     (feistel_rounds pg_hash_uint32 5 (hsz_mask 5) (scramble_key pg_hash_uint32 0x123456789ABCDEF0)
        0 0 (initial_halves 5 (hsz_mask 5) 0 0)) = 1001 \<and>
   unat (block_result 5
     (feistel_rounds pg_hash_uint32 5 (hsz_mask 5) (scramble_key pg_hash_uint32 0x123456789ABCDEF0)
        0 0 (initial_halves 5 (hsz_mask 5) 0 0))) \<le> 2 ^ (2 * 5) - 1"
proof -
  let ?s' = "feistel_rounds pg_hash_uint32 5 (hsz_mask 5)
      (scramble_key pg_hash_uint32 0x123456789ABCDEF0) 0 0 (initial_halves 5 (hsz_mask 5) 0 0)"
  have v: "?s' = \<lparr>l1 = 9, r1 = 31, l2 = 9, r2 = 31\<rparr>" by code_simp
  have r: "block_result 5 \<lparr>l1 = 9, r1 = 31, l2 = 9, r2 = 31\<rparr> = 1001" by code_simp
  have "(5 :: nat) < 32 \<and> hsz_mask 5 = hsz_mask 5 \<or> (5 :: nat) = 32 \<longrightarrow>
      unat (block_result 5 ?s') \<le> 2 ^ (2 * 5) - 1"
    using C8_feistel_network [of pg_hash_uint32 5 "hsz_mask 5"
        "scramble_key pg_hash_uint32 0x123456789ABCDEF0" 0 "initial_halves 5 (hsz_mask 5) 0 0"]
    unfolding Let_def by blast
  then have "unat (block_result 5 ?s') \<le> 2 ^ (2 * 5) - 1" by simp
  then show ?thesis unfolding v r by simp
qed

section \<open>The cycle-walking loop\<close>

lemma attempt_result_0:
  "attempt_result h hsz m k dir s 0 = block_result hsz (feistel_rounds h hsz m k dir 0 s)"
  by (simp add: attempt_result_def)

lemma attempt_result_Suc:
  "attempt_result h hsz m k dir s (Suc n) = attempt_result h hsz m k dir (walk_step h hsz m k dir s) n"
  by (simp only: attempt_result_def funpow_Suc_right o_apply)

lemma cycle_walk_in_range:
  "\<not> d < attempt_result h hsz m k dir s 0 \<Longrightarrow>
   cycle_walk h hsz m k dir d s wc = (attempt_result h hsz m k dir s 0, wc)"
  by (subst cycle_walk.simps) (simp add: Let_def attempt_result_0)

lemma cycle_walk_again:
  "d < attempt_result h hsz m k dir s 0 \<Longrightarrow> wc < walk_max \<Longrightarrow>
   cycle_walk h hsz m k dir d s wc = cycle_walk h hsz m k dir d (walk_step h hsz m k dir s) (wc + 1)"
  by (subst cycle_walk.simps) (simp add: Let_def attempt_result_0 walk_step_def)

lemma cycle_walk_give_up:
  "d < attempt_result h hsz m k dir s 0 \<Longrightarrow> \<not> wc < walk_max \<Longrightarrow>
   cycle_walk h hsz m k dir d s wc = (attempt_result h hsz m k dir s 0, wc + 1)"
  by (subst cycle_walk.simps) (simp add: Let_def attempt_result_0)

lemma cycle_walk_lands:
  "(\<forall>j<n. d < attempt_result h hsz m k dir s j) \<Longrightarrow>
   attempt_result h hsz m k dir s n \<le> d \<Longrightarrow>
   wc + int n < walk_max \<Longrightarrow>
   cycle_walk h hsz m k dir d s wc = (attempt_result h hsz m k dir s n, wc + int n)"
proof (induction n arbitrary: s wc)
  case 0
  then have "\<not> d < attempt_result h hsz m k dir s 0" by (simp add: not_less)
  then show ?case by (simp add: cycle_walk_in_range)
next
  case (Suc n)
  have out: "d < attempt_result h hsz m k dir s 0" using Suc.prems(1) by blast
  have wc: "wc < walk_max" using Suc.prems(3) by simp
  have a: "\<forall>j<n. d < attempt_result h hsz m k dir (walk_step h hsz m k dir s) j"
    using Suc.prems(1) by (auto simp flip: attempt_result_Suc)
  have b: "attempt_result h hsz m k dir (walk_step h hsz m k dir s) n \<le> d"
    using Suc.prems(2) by (simp only: attempt_result_Suc)
  have c: "(wc + 1) + int n < walk_max" using Suc.prems(3) by simp
  have "cycle_walk h hsz m k dir d s wc =
      cycle_walk h hsz m k dir d (walk_step h hsz m k dir s) (wc + 1)"
    using out wc by (rule cycle_walk_again)
  also have "\<dots> = (attempt_result h hsz m k dir (walk_step h hsz m k dir s) n, (wc + 1) + int n)"
    by (rule Suc.IH [OF a b c])
  finally show ?case by (simp add: attempt_result_Suc)
qed

lemma cycle_walk_exhausts:
  "(\<forall>j. int j < walk_max - wc \<longrightarrow> d < attempt_result h hsz m k dir s j) \<Longrightarrow>
   walk_max \<le> snd (cycle_walk h hsz m k dir d s wc)"
proof (induction h hsz m k dir d s wc rule: cycle_walk.induct)
  case (1 h hsz m k dir d s wc)
  note hyp = "1.prems"
  show ?case
  proof (cases "d < attempt_result h hsz m k dir s 0")
    case False
    then have "\<not> (int 0 < walk_max - wc)" using hyp by blast
    then have "walk_max \<le> wc" by simp
    then show ?thesis using False by (simp add: cycle_walk_in_range)
  next
    case out: True
    show ?thesis
    proof (cases "wc < walk_max")
      case False
      then show ?thesis using out by (simp add: cycle_walk_give_up)
    next
      case True
      have a: "\<forall>j. int j < walk_max - (wc + 1) \<longrightarrow>
          d < attempt_result h hsz m k dir (walk_step h hsz m k dir s) j"
      proof (intro allI impI)
        fix j assume "int j < walk_max - (wc + 1)"
        then have "int (Suc j) < walk_max - wc" by simp
        then have "d < attempt_result h hsz m k dir s (Suc j)" using hyp by blast
        then show "d < attempt_result h hsz m k dir (walk_step h hsz m k dir s) j"
          by (simp only: attempt_result_Suc)
      qed
      have out': "d < block_result hsz (feistel_rounds h hsz m k dir 0 s)"
        using out by (simp add: attempt_result_0)
      have "walk_max \<le> snd (cycle_walk h hsz m k dir d (walk_step h hsz m k dir s) (wc + 1))"
        using "1.IH" [OF refl refl out' True] a by (simp add: walk_step_def)
      then show ?thesis using out True by (simp add: cycle_walk_again)
    qed
  qed
qed

lemma cycle_walking_cipher_walk:
  "cycle_walking_cipher h minval maxval v key dir =
     (let p = cycle_walk h (hsz_loop 1 (maxval - minval + 1))
                (hsz_mask (hsz_loop 1 (maxval - minval + 1))) (scramble_key h key) dir
                (maxval - minval)
                (initial_halves (hsz_loop 1 (maxval - minval + 1))
                   (hsz_mask (hsz_loop 1 (maxval - minval + 1))) minval v) 0
      in if walk_max \<le> snd p then Inl CycleLimitExceeded else Inr (minval + fst p))"
  by (simp add: cycle_walking_cipher_def Let_def split: prod.splits)

lemma not_greater_iff_less_interval:
  assumes "(minval :: int64) \<le>s maxval"
  shows "((x :: uint64) \<le> maxval - minval) = (uint x < sint maxval - sint minval + 1)"
proof -
  have b: "- (2 ^ 63) \<le> sint minv" "sint minv < 2 ^ 63" for minv :: int64
    using sint64_bounds by blast+
  have "0 \<le> sint maxval - sint minval" using assms by (simp add: word_sle_eq)
  moreover have "sint maxval - sint minval < 2 ^ 64"
    using b [of minval] b [of maxval] by simp
  ultimately have "uint (maxval - minval) = sint maxval - sint minval"
    by (simp add: uint_diff)
  then show ?thesis by (simp add: word_le_def)
qed

lemma funpow_settles:
  "f x = y \<Longrightarrow> f y = y \<Longrightarrow> (f ^^ Suc n) x = y"
  by (induction n) simp_all

text \<open>
  C6.  \<open>walk_max\<close> is 1,000,000.  When attempt \<open>n\<close> (counted from 0, \<open>n < walk_max\<close>) is
  the first whose result is not greater than \<open>maxval - minval\<close>, the cipher returns
  \<open>minval\<close> plus that result.  When none of the first 1,000,000 results is in range, the
  cipher fails with \<open>CycleLimitExceeded\<close> (the loop computes one more result then, and
  raises the error whatever it is).  For \<open>minval \<le> maxval\<close>, "not greater than
  \<open>maxval - minval\<close>" (the unsigned comparison of the source) is the same as "less than
  the interval size \<open>maxval - minval + 1\<close>".
\<close>

theorem C6_cycle_walking:
  "walk_max = 1000000 \<and>
   (int n < walk_max \<and>
    (\<forall>j<n. maxval - minval < walk_result h minval maxval v key dir j) \<and>
    walk_result h minval maxval v key dir n \<le> maxval - minval \<longrightarrow>
      cycle_walking_cipher h minval maxval v key dir =
        Inr (minval + walk_result h minval maxval v key dir n)) \<and>
   ((\<forall>j. int j < walk_max \<longrightarrow> maxval - minval < walk_result h minval maxval v key dir j) \<longrightarrow>
      cycle_walking_cipher h minval maxval v key dir = Inl CycleLimitExceeded) \<and>
   (minval \<le>s maxval \<longrightarrow>
      ((x :: uint64) \<le> maxval - minval) = (uint x < sint maxval - sint minval + 1))"
proof -
  have lands: "cycle_walking_cipher h minval maxval v key dir =
        Inr (minval + walk_result h minval maxval v key dir n)"
    if "int n < walk_max"
      and "\<forall>j<n. maxval - minval < walk_result h minval maxval v key dir j"
      and "walk_result h minval maxval v key dir n \<le> maxval - minval"
    using that cycle_walk_lands [of n "maxval - minval" h "hsz_loop 1 (maxval - minval + 1)"
        "hsz_mask (hsz_loop 1 (maxval - minval + 1))" "scramble_key h key" dir
        "initial_halves (hsz_loop 1 (maxval - minval + 1))
           (hsz_mask (hsz_loop 1 (maxval - minval + 1))) minval v" 0]
    by (simp add: cycle_walking_cipher_walk walk_result_def Let_def)
  have fails: "cycle_walking_cipher h minval maxval v key dir = Inl CycleLimitExceeded"
    if "\<forall>j. int j < walk_max \<longrightarrow> maxval - minval < walk_result h minval maxval v key dir j"
    using that cycle_walk_exhausts [of 0 "maxval - minval" h "hsz_loop 1 (maxval - minval + 1)"
        "hsz_mask (hsz_loop 1 (maxval - minval + 1))" "scramble_key h key" dir
        "initial_halves (hsz_loop 1 (maxval - minval + 1))
           (hsz_mask (hsz_loop 1 (maxval - minval + 1))) minval v"]
    by (simp add: cycle_walking_cipher_walk walk_result_def Let_def)
  from lands fails not_greater_iff_less_interval [of minval maxval x] show ?thesis
    by (simp add: walk_max_def)
qed

theorem C6_cycle_walking_witness:
  "int 1 < walk_max \<and>
   999 - 0 < walk_result pg_hash_uint32 0 999 0 0x123456789ABCDEF0 0 0 \<and>
   walk_result pg_hash_uint32 0 999 0 0x123456789ABCDEF0 0 1 \<le> 999 - 0 \<and>
   walk_result pg_hash_uint32 0 999 0 0x123456789ABCDEF0 0 1 = 531 \<and>
   cycle_walking_cipher pg_hash_uint32 0 999 0 0x123456789ABCDEF0 0 = Inr 531 \<and>
   \<not> (\<exists>j. int j < walk_max \<and> walk_result (\<lambda>x. 0) 0 4 7 0 0 j \<le> 4 - 0) \<and>
   cycle_walking_cipher (\<lambda>x. 0) 0 4 7 0 0 = Inl CycleLimitExceeded \<and>
   (0 :: int64) \<le>s 999 \<and>
   ((531 :: uint64) \<le> 999 - 0) = (uint (531 :: uint64) < sint (999 :: int64) - sint (0 :: int64) + 1)"
proof -
  have w0: "walk_result pg_hash_uint32 0 999 0 0x123456789ABCDEF0 0 0 = 1001" by code_simp
  have q: "hsz_loop 1 (999 - 0 + 1) = 5" "hsz_mask 5 = 31"
    "scramble_key pg_hash_uint32 0x123456789ABCDEF0 = 8830578206985345641"
    "initial_halves 5 31 0 0 = \<lparr>l1 = 0, r1 = 0, l2 = 0, r2 = 0\<rparr>"
    by code_simp+
  have t1: "walk_step pg_hash_uint32 5 31 8830578206985345641 0 \<lparr>l1 = 0, r1 = 0, l2 = 0, r2 = 0\<rparr>
      = \<lparr>l1 = 31, r1 = 9, l2 = 9, r2 = 31\<rparr>"
    by code_simp
  have t2: "block_result 5 (feistel_rounds pg_hash_uint32 5 31 8830578206985345641 0 0
      \<lparr>l1 = 31, r1 = 9, l2 = 9, r2 = 31\<rparr>) = 531"
    by code_simp
  have w1: "walk_result pg_hash_uint32 0 999 0 0x123456789ABCDEF0 0 1 = 531"
    unfolding walk_result_def attempt_result_def q by (simp add: t1 t2)
  have first: "\<forall>j<1. 999 - 0 < walk_result pg_hash_uint32 0 999 0 0x123456789ABCDEF0 0 j"
    using w0 by simp
  have a: "cycle_walking_cipher pg_hash_uint32 0 999 0 0x123456789ABCDEF0 0 = Inr 531"
    using C6_cycle_walking [of 1 999 0 pg_hash_uint32 0 "0x123456789ABCDEF0" 0] first w1
    by (simp add: walk_max_def)
  let ?step = "walk_step (\<lambda>x. 0) 2 3 0 0"
  have p: "hsz_loop 1 (4 - 0 + 1) = 2" "hsz_mask 2 = 3" "scramble_key (\<lambda>x. 0) 0 = 0"
    "initial_halves 2 3 0 7 = \<lparr>l1 = 1, r1 = 3, l2 = 0, r2 = 0\<rparr>"
    by code_simp+
  have s1: "?step \<lparr>l1 = 1, r1 = 3, l2 = 0, r2 = 0\<rparr> = \<lparr>l1 = 1, r1 = 3, l2 = 3, r2 = 1\<rparr>"
    by code_simp
  have s2: "?step \<lparr>l1 = 1, r1 = 3, l2 = 3, r2 = 1\<rparr> = \<lparr>l1 = 1, r1 = 3, l2 = 3, r2 = 1\<rparr>"
    by code_simp
  have r0: "block_result 2 (feistel_rounds (\<lambda>x. 0) 2 3 0 0 0 \<lparr>l1 = 1, r1 = 3, l2 = 0, r2 = 0\<rparr>) = 7"
    by code_simp
  have r1: "block_result 2 (feistel_rounds (\<lambda>x. 0) 2 3 0 0 0 \<lparr>l1 = 1, r1 = 3, l2 = 3, r2 = 1\<rparr>) = 7"
    by code_simp
  have all7: "walk_result (\<lambda>x. 0) 0 4 7 0 0 j = 7" for j
  proof (cases j)
    case 0
    then show ?thesis unfolding walk_result_def attempt_result_def p by (simp add: r0)
  next
    case (Suc n)
    have "(?step ^^ Suc n) \<lparr>l1 = 1, r1 = 3, l2 = 0, r2 = 0\<rparr> = \<lparr>l1 = 1, r1 = 3, l2 = 3, r2 = 1\<rparr>"
      using s1 s2 by (rule funpow_settles)
    then show ?thesis unfolding walk_result_def attempt_result_def p Suc by (simp only: r1)
  qed
  have none: "\<forall>j. int j < walk_max \<longrightarrow> 4 - 0 < walk_result (\<lambda>x. 0) 0 4 7 0 0 j"
    by (simp add: all7)
  have b: "cycle_walking_cipher (\<lambda>x. 0) 0 4 7 0 0 = Inl CycleLimitExceeded"
    using C6_cycle_walking [of _ 4 0 "\<lambda>x. 0" 7 0 0] none by blast
  have c: "(0 :: int64) \<le>s 999" by (simp add: word_sle_eq)
  have d: "((531 :: uint64) \<le> 999 - 0) = (uint (531 :: uint64) < sint (999 :: int64) - sint (0 :: int64) + 1)"
    using C6_cycle_walking [of _ 999 0 _ _ _ _ 531] c by blast
  show ?thesis using w0 w1 a b c d all7 by (simp add: walk_max_def)
qed

section \<open>The network is undone by the reversed subkeys\<close>

text \<open>
  On blocks whose halves fit the mask, a round followed by the exchange of the halves
  and the same round gives the exchanged block back.  So the rounds with the subkeys
  reversed undo the rounds, and one attempt in the decrypting direction undoes one
  attempt in the encrypting direction, and conversely.  The mask may be any word.
\<close>

lemma spec_round_undo:
  assumes "l AND m = l"
  shows "spec_round h m k (prod.swap (spec_round h m k (l, r))) = (r, l)"
proof -
  have "(((l XOR h r XOR h k) AND m) XOR h r XOR h k) AND m = l AND m"
    by (rule bit_eqI) (auto simp: bit_simps)
  then show ?thesis using assms by (simp add: spec_round_def)
qed

lemma spec_round_block:
  "p \<in> block_halves m \<Longrightarrow> spec_round h m k p \<in> block_halves m"
  by (simp add: block_halves_def spec_round_def and.assoc)

lemma spec_feistel_block:
  "p \<in> block_halves m \<Longrightarrow> spec_feistel h m ks p \<in> block_halves m"
  unfolding spec_feistel_def
  by (induction ks arbitrary: p) (simp_all add: spec_round_block)

lemma swap_block: "p \<in> block_halves m \<Longrightarrow> prod.swap p \<in> block_halves m"
  by (simp add: block_halves_def)

lemma spec_feistel_undo:
  "p \<in> block_halves m \<Longrightarrow>
   spec_feistel h m (rev ks) (prod.swap (spec_feistel h m ks p)) = prod.swap p"
proof (induction ks arbitrary: p)
  case Nil
  then show ?case by (simp add: spec_feistel_def)
next
  case (Cons k ks)
  have blk: "spec_round h m k p \<in> block_halves m" using Cons.prems by (rule spec_round_block)
  have l: "fst p AND m = fst p" using Cons.prems by (simp add: block_halves_def)
  have "spec_feistel h m (rev (k # ks)) (prod.swap (spec_feistel h m (k # ks) p)) =
        spec_round h m k
          (spec_feistel h m (rev ks) (prod.swap (spec_feistel h m ks (spec_round h m k p))))"
    by (simp add: spec_feistel_def)
  also have "\<dots> = spec_round h m k (prod.swap (spec_round h m k p))"
    by (simp only: Cons.IH [OF blk])
  also have "\<dots> = prod.swap p"
    using spec_round_undo [OF l, of h k "snd p"] by (cases p) simp
  finally show ?case .
qed

lemma subkeys_reverse:
  "map (round_Ki key hsz 1) [0, 1, 2, 3, 4, 5, 6, 7, 8] =
     rev (map (round_Ki key hsz 0) [0, 1, 2, 3, 4, 5, 6, 7, 8])"
  by (simp add: round_Ki_def NR_def)

lemma walk_perm_block:
  "p \<in> block_halves m \<Longrightarrow> walk_perm h hsz m key dir p \<in> block_halves m"
  unfolding walk_perm_def by (intro swap_block spec_feistel_block)

lemma walk_perm_decrypt_encrypt:
  assumes "p \<in> block_halves m"
  shows "walk_perm h hsz m key 1 (walk_perm h hsz m key 0 p) = p"
proof -
  have "spec_feistel h m (rev (map (round_Ki key hsz 0) [0, 1, 2, 3, 4, 5, 6, 7, 8]))
          (prod.swap (spec_feistel h m (map (round_Ki key hsz 0) [0, 1, 2, 3, 4, 5, 6, 7, 8]) p))
        = prod.swap p"
    using assms by (rule spec_feistel_undo)
  then show ?thesis by (simp only: walk_perm_def subkeys_reverse) simp
qed

lemma walk_perm_encrypt_decrypt:
  assumes "p \<in> block_halves m"
  shows "walk_perm h hsz m key 0 (walk_perm h hsz m key 1 p) = p"
proof -
  let ?ks = "rev (map (round_Ki key hsz 0) [0, 1, 2, 3, 4, 5, 6, 7, 8])"
  have "spec_feistel h m (rev ?ks) (prod.swap (spec_feistel h m ?ks p)) = prod.swap p"
    using assms by (rule spec_feistel_undo)
  then have "spec_feistel h m (map (round_Ki key hsz 0) [0, 1, 2, 3, 4, 5, 6, 7, 8])
      (prod.swap (spec_feistel h m ?ks p)) = prod.swap p"
    by (simp only: rev_rev_ident)
  then show ?thesis by (simp only: walk_perm_def subkeys_reverse) simp
qed

section \<open>The walk on blocks\<close>

text \<open>
  The half blocks \<open>l1\<close> and \<open>r1\<close> of the loop follow \<open>walk_perm\<close>, and the result of
  attempt \<open>n\<close> is the value of the block after \<open>n + 1\<close> applications of it.
\<close>

lemma feistel_rounds_pair:
  "(l1 (feistel_rounds h hsz m key dir 0 s), r1 (feistel_rounds h hsz m key dir 0 s)) =
     spec_feistel h m (map (round_Ki key hsz dir) [0, 1, 2, 3, 4, 5, 6, 7, 8]) (l1 s, r1 s)"
  unfolding feistel_rounds_unrolled spec_feistel_def
  by (simp only: feistel_round_halves) simp

lemma feistel_rounds_temps:
  "l2 (feistel_rounds h hsz m key dir 0 s) = l1 (feistel_rounds h hsz m key dir 0 s) \<and>
   r2 (feistel_rounds h hsz m key dir 0 s) = r1 (feistel_rounds h hsz m key dir 0 s)"
  unfolding feistel_rounds_unrolled by (rule feistel_round_temps)

lemma walk_step_pair:
  "(l1 (walk_step h hsz m key dir s), r1 (walk_step h hsz m key dir s)) =
     walk_perm h hsz m key dir (l1 s, r1 s)"
proof -
  have "(l1 (walk_step h hsz m key dir s), r1 (walk_step h hsz m key dir s)) =
      prod.swap (l1 (feistel_rounds h hsz m key dir 0 s), r1 (feistel_rounds h hsz m key dir 0 s))"
    by (simp add: walk_step_def swap_halves_def feistel_rounds_temps)
  then show ?thesis by (simp only: feistel_rounds_pair walk_perm_def)
qed

lemma walk_steps_pair:
  "(l1 ((walk_step h hsz m key dir ^^ n) s), r1 ((walk_step h hsz m key dir ^^ n) s)) =
     (walk_perm h hsz m key dir ^^ n) (l1 s, r1 s)"
proof (induction n)
  case 0
  then show ?case by simp
next
  case (Suc n)
  have "(l1 ((walk_step h hsz m key dir ^^ Suc n) s), r1 ((walk_step h hsz m key dir ^^ Suc n) s)) =
      walk_perm h hsz m key dir
        (l1 ((walk_step h hsz m key dir ^^ n) s), r1 ((walk_step h hsz m key dir ^^ n) s))"
    by (simp add: walk_step_pair)
  then show ?case by (simp add: Suc.IH)
qed

lemma block_result_pair:
  "block_result hsz (feistel_rounds h hsz m key dir 0 s) =
     halves_value hsz (walk_perm h hsz m key dir (l1 s, r1 s))"
proof -
  have "block_result hsz (feistel_rounds h hsz m key dir 0 s) =
      halves_value hsz
        (prod.swap (l1 (feistel_rounds h hsz m key dir 0 s), r1 (feistel_rounds h hsz m key dir 0 s)))"
    by (simp add: block_result_def halves_value_def)
  then show ?thesis by (simp only: feistel_rounds_pair walk_perm_def)
qed

lemma attempt_result_pair:
  "attempt_result h hsz m key dir s n =
     halves_value hsz ((walk_perm h hsz m key dir ^^ Suc n) (l1 s, r1 s))"
  unfolding attempt_result_def block_result_pair
  by (simp add: walk_steps_pair)

lemma cycle_walk_returns:
  assumes "snd (cycle_walk h hsz m key dir d s 0) < walk_max"
  shows "\<exists>n. int n < walk_max \<and> (\<forall>j<n. d < attempt_result h hsz m key dir s j) \<and>
           attempt_result h hsz m key dir s n \<le> d \<and>
           cycle_walk h hsz m key dir d s 0 = (attempt_result h hsz m key dir s n, int n)"
proof -
  have "\<not> (\<forall>j. int j < walk_max - 0 \<longrightarrow> d < attempt_result h hsz m key dir s j)"
    using cycle_walk_exhausts [of 0 d h hsz m key dir s] assms by auto
  then obtain j where j: "int j < walk_max" "attempt_result h hsz m key dir s j \<le> d"
    by (auto simp: not_less)
  define n where "n = (LEAST j. attempt_result h hsz m key dir s j \<le> d)"
  have n1: "attempt_result h hsz m key dir s n \<le> d"
    unfolding n_def using j(2) by (rule LeastI)
  have n2: "n \<le> j" unfolding n_def using j(2) by (rule Least_le)
  have n3: "\<forall>i<n. d < attempt_result h hsz m key dir s i"
  proof (intro allI impI)
    fix i assume "i < n"
    then have "\<not> attempt_result h hsz m key dir s i \<le> d"
      unfolding n_def by (rule not_less_Least)
    then show "d < attempt_result h hsz m key dir s i" by (simp add: not_le)
  qed
  have n4: "int n < walk_max" using n2 j(1) by simp
  have "cycle_walk h hsz m key dir d s 0 = (attempt_result h hsz m key dir s n, 0 + int n)"
    using n3 n1 n4 by (intro cycle_walk_lands) simp_all
  then show ?thesis using n1 n3 n4 by auto
qed

section \<open>Offsets and blocks\<close>

text \<open>
  For \<open>hsz \<le> 32\<close> and an offset below \<open>2^(2*hsz)\<close>, the initial half blocks fit the
  mask and their value is the offset; conversely the initial half blocks of the value of
  a block are that block.
\<close>

lemma high_bits_zero:
  assumes "unat (x :: uint64) < 2 ^ k" "k \<le> n"
  shows "\<not> bit x n"
proof
  assume "bit x n"
  then have "bit (unat x) n" by (simp add: bit_unsigned_iff)
  then have "odd (unat x div 2 ^ n)" by (simp add: bit_iff_odd)
  moreover have "unat x < 2 ^ n"
    using assms by (meson le_less_trans not_less power_increasing_iff one_less_numeral_iff
        semiring_norm(76) less_le_trans)
  ultimately show False by simp
qed

lemma masked_bits:
  assumes "(a :: uint32) AND mask hsz = a" "bit a n"
  shows "n < hsz"
proof -
  have "bit (a AND mask hsz) n" using assms by simp
  then show ?thesis by (simp add: bit_simps)
qed

lemma initial_halves_block:
  assumes "unat (v - minval) < 2 ^ (2 * hsz)" "hsz \<le> 32"
  shows "(l1 (initial_halves hsz (hsz_mask hsz) minval v),
          r1 (initial_halves hsz (hsz_mask hsz) minval v)) \<in> block_halves (hsz_mask hsz)"
proof -
  let ?x = "v - minval"
  have z: "\<not> bit ?x n" if "2 * hsz \<le> n" for n
    using assms(1) that by (rule high_bits_zero)
  have "(ucast (signed_drop_bit hsz ?x) :: uint32) AND mask hsz = ucast (signed_drop_bit hsz ?x)"
  proof (rule bit_eqI)
    fix n
    show "bit ((ucast (signed_drop_bit hsz ?x) :: uint32) AND mask hsz) n =
          bit (ucast (signed_drop_bit hsz ?x) :: uint32) n"
    proof (cases "n < hsz")
      case True
      then show ?thesis by (auto simp: bit_simps)
    next
      case False
      then have "\<not> bit ?x (hsz + n)" using z [of "hsz + n"] by simp
      then show ?thesis using False assms(2) by (auto simp: bit_simps)
    qed
  qed
  moreover have "(ucast (?x AND ucast (mask hsz :: uint32)) :: uint32) AND mask hsz =
      ucast (?x AND ucast (mask hsz :: uint32))"
    by (rule bit_eqI) (auto simp: bit_simps)
  ultimately show ?thesis
    by (simp add: block_halves_def initial_halves_def hsz_mask_eq)
qed

lemma initial_halves_value:
  assumes "unat (v - minval) < 2 ^ (2 * hsz)" "hsz \<le> 32"
  shows "halves_value hsz (l1 (initial_halves hsz (hsz_mask hsz) minval v),
          r1 (initial_halves hsz (hsz_mask hsz) minval v)) = v - minval"
proof -
  let ?x = "v - minval"
  have z: "\<not> bit ?x n" if "2 * hsz \<le> n" for n
    using assms(1) that by (rule high_bits_zero)
  have "push_bit hsz (ucast (ucast (signed_drop_bit hsz ?x) :: uint32)) OR
        ucast (ucast (?x AND ucast (mask hsz :: uint32)) :: uint32) = ?x"
  proof (rule bit_eqI)
    fix n
    assume "possible_bit TYPE(uint64) n"
    then have n: "n < 64" by simp
    show "bit (push_bit hsz (ucast (ucast (signed_drop_bit hsz ?x) :: uint32)) OR
        ucast (ucast (?x AND ucast (mask hsz :: uint32)) :: uint32) :: uint64) n = bit ?x n"
    proof (cases "n < hsz")
      case True
      then show ?thesis using assms(2) n by (auto simp: bit_simps)
    next
      case False
      show ?thesis
      proof (cases "n < 2 * hsz")
        case True
        then show ?thesis using False assms(2) n by (auto simp: bit_simps)
      next
        case big: False
        then have "\<not> bit ?x n" using z by simp
        then show ?thesis using False big assms(2) n z [of 63] by (auto simp: bit_simps)
      qed
    qed
  qed
  then show ?thesis by (simp add: halves_value_def initial_halves_def hsz_mask_eq)
qed

lemma initial_halves_of_value:
  assumes "p \<in> block_halves (hsz_mask hsz)" "hsz \<le> 32"
  shows "(l1 (initial_halves hsz (hsz_mask hsz) minval (minval + halves_value hsz p)),
          r1 (initial_halves hsz (hsz_mask hsz) minval (minval + halves_value hsz p))) = p"
proof -
  obtain a b where p: "p = (a, b)" by (cases p)
  have ma: "a AND mask hsz = a" and mb: "b AND mask hsz = b"
    using assms(1) by (simp_all add: p block_halves_def hsz_mask_eq)
  let ?y = "push_bit hsz (ucast a) OR ucast b :: uint64"
  have l: "(ucast (signed_drop_bit hsz ?y) :: uint32) = a"
  proof (rule bit_eqI)
    fix n
    assume "possible_bit TYPE(uint32) n"
    then have n: "n < 32" by simp
    show "bit (ucast (signed_drop_bit hsz ?y) :: uint32) n = bit a n"
      using n assms(2) masked_bits [OF mb, of "hsz + n"] by (auto simp: bit_simps)
  qed
  have r: "(ucast (?y AND ucast (mask hsz :: uint32)) :: uint32) = b"
  proof (rule bit_eqI)
    fix n
    assume "possible_bit TYPE(uint32) n"
    then have n: "n < 32" by simp
    show "bit (ucast (?y AND ucast (mask hsz :: uint32)) :: uint32) n = bit b n"
      using n assms(2) masked_bits [OF mb, of n] by (auto simp: bit_simps)
  qed
  show ?thesis
    by (simp add: p initial_halves_def halves_value_def hsz_mask_eq l r)
qed

lemma small_range_hsz:
  assumes "(minval :: int64) \<le>s maxval" "sint maxval - sint minval < 2 ^ 62"
  shows "hsz_loop 1 (maxval - minval + 1) \<le> 31 \<and>
         unat (maxval - minval) < 2 ^ (2 * hsz_loop 1 (maxval - minval + 1))"
proof -
  define interval where "interval = maxval - minval + 1"
  define k where "k = hsz_loop 1 interval"
  define D where "D = sint maxval - sint minval"
  have D: "0 \<le> D" "D < 2 ^ 62" using assms by (simp_all add: D_def word_sle_eq)
  have "uint interval = (D + 1) mod 2 ^ 64"
    unfolding interval_def D_def by (rule uint_interval)
  then have ui: "int (unat interval) = D + 1" using D by simp
  have "uint (maxval - minval) = D mod 2 ^ 64" unfolding D_def by (rule uint_diff)
  then have ud: "int (unat (maxval - minval)) = D" using D by simp
  have props: "k \<le> 32" "k < 32 \<longrightarrow> unat interval \<le> 4 ^ k"
    "\<forall>j. 1 \<le> j \<and> j < k \<longrightarrow> (4 :: nat) ^ j < unat interval"
    using hsz_loop_props [of 1 interval] unfolding k_def by auto
  have k31: "k \<le> 31"
  proof (rule ccontr)
    assume "\<not> k \<le> 31"
    then have "1 \<le> (31 :: nat) \<and> 31 < k" by simp
    then have "(4 :: nat) ^ 31 < unat interval" using props(3) by blast
    then have "int (4 ^ 31) < int (unat interval)" by (simp only: of_nat_less_iff)
    then show False using ui D by simp
  qed
  then have "unat interval \<le> 4 ^ k" using props(2) by simp
  then have "int (unat interval) \<le> int (4 ^ k)" by (simp only: of_nat_le_iff)
  then have "int (unat (maxval - minval)) < int (4 ^ k)" using ui ud by simp
  then have "unat (maxval - minval) < 4 ^ k" by (simp only: of_nat_less_iff)
  moreover have "(4 :: nat) ^ k = 2 ^ (2 * k)" by (simp add: power_mult)
  ultimately show ?thesis using k31 unfolding k_def interval_def by simp
qed

lemma in_range_offset:
  assumes "(minval :: int64) \<le>s v" "v \<le>s maxval"
  shows "v - minval \<le> maxval - minval"
proof -
  have b: "- (2 ^ 63) \<le> sint w" "sint w < 2 ^ 63" for w :: int64
    using sint64_bounds by blast+
  have le: "sint minval \<le> sint v" "sint v \<le> sint maxval"
    using assms by (simp_all add: word_sle_eq)
  have "uint (v - minval) = (sint v - sint minval) mod 2 ^ 64" by (rule uint_diff)
  then have a: "uint (v - minval) = sint v - sint minval"
    using le b [of v] b [of minval] by simp
  have "uint (maxval - minval) = (sint maxval - sint minval) mod 2 ^ 64" by (rule uint_diff)
  then have "uint (maxval - minval) = sint maxval - sint minval"
    using le b [of maxval] b [of minval] by simp
  then show ?thesis using a le by (simp add: word_le_def)
qed

lemma offset_in_range:
  assumes "(minval :: int64) \<le>s maxval" "r \<le> maxval - minval"
  shows "minval \<le>s minval + r \<and> minval + r \<le>s maxval"
proof -
  have b: "- (2 ^ 63) \<le> sint w" "sint w < 2 ^ 63" for w :: int64
    using sint64_bounds by blast+
  have le: "sint minval \<le> sint maxval" using assms(1) by (simp add: word_sle_eq)
  have "uint (maxval - minval) = (sint maxval - sint minval) mod 2 ^ 64" by (rule uint_diff)
  then have "uint (maxval - minval) = sint maxval - sint minval"
    using le b [of maxval] b [of minval] by simp
  then have r: "uint r \<le> sint maxval - sint minval" "0 \<le> uint r"
    using assms(2) by (simp_all add: word_le_def)
  have "minval + r = word_of_int (sint minval + uint r)" by simp
  then have "sint (minval + r) = signed_take_bit 63 (sint minval + uint r)"
    by (simp only: sint_sbintrunc') simp
  also have "\<dots> = sint minval + uint r"
  proof (rule signed_take_bit_int_eq_self)
    show "- (2 ^ 63) \<le> sint minval + uint r"
      using b [of minval] uint_ge_0 [of r] by linarith
    show "sint minval + uint r < 2 ^ 63"
      using r(1) b [of maxval] by linarith
  qed
  finally show ?thesis using r by (simp add: word_sle_eq)
qed

lemma funpow_undo:
  assumes inv: "\<And>p. p \<in> B \<Longrightarrow> G' (G p) = p" and pres: "\<And>p. p \<in> B \<Longrightarrow> G p \<in> B"
  shows "p \<in> B \<Longrightarrow> j \<le> n \<Longrightarrow> (G' ^^ j) ((G ^^ n) p) = (G ^^ (n - j)) p"
proof (induction j)
  case 0
  then show ?case by simp
next
  case (Suc j)
  then have jn: "j \<le> n" and lt: "j < n" by simp_all
  have blk: "(G ^^ i) p \<in> B" for i
    using Suc.prems(1) by (induction i) (simp_all add: pres)
  have "(G' ^^ Suc j) ((G ^^ n) p) = G' ((G ^^ (n - j)) p)"
    using Suc.IH [OF Suc.prems(1) jn] by simp
  also have "n - j = Suc (n - Suc j)" using lt by simp
  also have "G' ((G ^^ Suc (n - Suc j)) p) = (G ^^ (n - Suc j)) p"
    using inv [OF blk] by simp
  finally show ?case .
qed

section \<open>Round trip on ranges of at most \<open>2^62\<close> elements\<close>

text \<open>
  For a range with \<open>minval \<le> maxval\<close> and at most \<open>2^62\<close> elements (so \<open>hsz \<le> 31\<close>, where
  the mask is what C defines): when the cipher returns a value for an input of the range
  in one direction, the value is in the range and the cipher in the other direction
  returns the input for it, after the same number of attempts.
\<close>

lemma cipher_round_trip:
  assumes rng: "(minval :: int64) \<le>s maxval" "sint maxval - sint minval < 2 ^ 62"
    and v: "minval \<le>s v" "v \<le>s maxval"
    and dirs: "dir = 0 \<and> dir' = 1 \<or> dir = 1 \<and> dir' = 0"
    and enc: "cycle_walking_cipher h minval maxval v key dir = Inr c"
  shows "minval \<le>s c \<and> c \<le>s maxval \<and> cycle_walking_cipher h minval maxval c key dir' = Inr v"
proof -
  define hsz where "hsz = hsz_loop 1 (maxval - minval + 1)"
  define m where "m = hsz_mask hsz"
  define K where "K = scramble_key h key"
  define d where "d = maxval - minval"
  define G where "G = walk_perm h hsz m K dir"
  define G' where "G' = walk_perm h hsz m K dir'"
  define s0 where "s0 = initial_halves hsz m minval v"
  define p0 where "p0 = (l1 s0, r1 s0)"
  have hsz: "hsz \<le> 32" and dlt: "unat d < 2 ^ (2 * hsz)"
    using small_range_hsz [OF rng] unfolding hsz_def d_def by simp_all
  have off: "v - minval \<le> d" unfolding d_def using v by (rule in_range_offset)
  then have "unat (v - minval) \<le> unat d" by (simp add: word_le_nat_alt)
  then have olt: "unat (v - minval) < 2 ^ (2 * hsz)" using dlt by simp
  have p0B: "p0 \<in> block_halves m"
    unfolding p0_def s0_def m_def using olt hsz by (rule initial_halves_block)
  have p0v: "halves_value hsz p0 = v - minval"
    unfolding p0_def s0_def m_def using olt hsz by (rule initial_halves_value)
  have inv: "G' (G p) = p" if "p \<in> block_halves m" for p
    using dirs that unfolding G_def G'_def
    by (auto simp: walk_perm_decrypt_encrypt walk_perm_encrypt_decrypt)
  have pres: "G p \<in> block_halves m" if "p \<in> block_halves m" for p
    unfolding G_def using that by (rule walk_perm_block)
  have presn: "(G ^^ i) p0 \<in> block_halves m" for i
    using p0B by (induction i) (simp_all add: pres)
  have att: "attempt_result h hsz m K dir s0 j = halves_value hsz ((G ^^ Suc j) p0)" for j
    unfolding G_def p0_def by (rule attempt_result_pair)
  have cw: "cycle_walking_cipher h minval maxval v key dir =
      (let p = cycle_walk h hsz m K dir d s0 0
       in if walk_max \<le> snd p then Inl CycleLimitExceeded else Inr (minval + fst p))"
    unfolding hsz_def m_def K_def d_def s0_def by (rule cycle_walking_cipher_walk)
  have ret: "snd (cycle_walk h hsz m K dir d s0 0) < walk_max"
    and cval: "c = minval + fst (cycle_walk h hsz m K dir d s0 0)"
    using enc unfolding cw Let_def by (auto split: if_splits)
  obtain n where n: "int n < walk_max" "\<forall>j<n. d < attempt_result h hsz m K dir s0 j"
      "attempt_result h hsz m K dir s0 n \<le> d"
      "cycle_walk h hsz m K dir d s0 0 = (attempt_result h hsz m K dir s0 n, int n)"
    using cycle_walk_returns [OF ret] by blast
  define q where "q = (G ^^ Suc n) p0"
  have qB: "q \<in> block_halves m" unfolding q_def by (rule presn)
  have c: "c = minval + halves_value hsz q" using cval n(4) by (simp add: att q_def)
  have qd: "halves_value hsz q \<le> d" using n(3) by (simp add: att q_def)
  have cr: "minval \<le>s c \<and> c \<le>s maxval"
    unfolding c using rng(1) qd [unfolded d_def] by (rule offset_in_range)
  define s1 where "s1 = initial_halves hsz m minval c"
  have s1: "(l1 s1, r1 s1) = q"
    unfolding s1_def c m_def using qB [unfolded m_def] hsz by (rule initial_halves_of_value)
  have att': "attempt_result h hsz m K dir' s1 j = halves_value hsz ((G ^^ (n - j)) p0)"
    if "j \<le> n" for j
  proof -
    have "attempt_result h hsz m K dir' s1 j = halves_value hsz ((G' ^^ Suc j) q)"
      unfolding G'_def s1 [symmetric] by (rule attempt_result_pair)
    also have "(G' ^^ Suc j) q = (G ^^ (Suc n - Suc j)) p0"
      unfolding q_def using that by (intro funpow_undo [where B = "block_halves m"] inv pres p0B) simp_all
    finally show ?thesis by simp
  qed
  have out': "\<forall>j<n. d < attempt_result h hsz m K dir' s1 j"
  proof (intro allI impI)
    fix j assume j: "j < n"
    then have "n - j = Suc (n - j - 1)" by simp
    then have "attempt_result h hsz m K dir' s1 j = attempt_result h hsz m K dir s0 (n - j - 1)"
      using att' [of j] j by (simp add: att)
    moreover have "d < attempt_result h hsz m K dir s0 (n - j - 1)"
      using n(2) j by simp
    ultimately show "d < attempt_result h hsz m K dir' s1 j" by simp
  qed
  have last': "attempt_result h hsz m K dir' s1 n = v - minval"
    using att' [of n] by (simp add: p0v)
  have "cycle_walk h hsz m K dir' d s1 0 = (attempt_result h hsz m K dir' s1 n, 0 + int n)"
    using out' n(1) off by (intro cycle_walk_lands) (simp_all add: last')
  then have w': "cycle_walk h hsz m K dir' d s1 0 = (v - minval, int n)"
    by (simp add: last')
  have "cycle_walking_cipher h minval maxval c key dir' =
      (let p = cycle_walk h hsz m K dir' d s1 0
       in if walk_max \<le> snd p then Inl CycleLimitExceeded else Inr (minval + fst p))"
    unfolding hsz_def m_def K_def d_def s1_def by (rule cycle_walking_cipher_walk)
  then have "cycle_walking_cipher h minval maxval c key dir' = Inr v"
    using w' n(1) by simp
  then show ?thesis using cr by simp
qed

lemma encrypt_decrypt_round_trip:
  assumes "(minval :: int64) \<le>s maxval" "sint maxval - sint minval < 2 ^ 62"
    and "range_encrypt_element h v minval maxval key = Inr c"
  shows "minval \<le>s c \<and> c \<le>s maxval \<and> range_decrypt_element h c minval maxval key = Inr v"
proof -
  have v: "minval \<le>s v" "v \<le>s maxval"
    using assms(3) by (auto simp: range_encrypt_element_def signed.not_less split: if_splits)
  then have "cycle_walking_cipher h minval maxval v key 0 = Inr c"
    using assms(3) by (auto simp: range_encrypt_element_def split: if_splits)
  then have "minval \<le>s c \<and> c \<le>s maxval \<and> cycle_walking_cipher h minval maxval c key 1 = Inr v"
    using assms(1,2) v by (intro cipher_round_trip [where dir = 0]) simp_all
  then show ?thesis by (auto simp: range_decrypt_element_def signed.not_less [symmetric])
qed

lemma decrypt_encrypt_round_trip:
  assumes "(minval :: int64) \<le>s maxval" "sint maxval - sint minval < 2 ^ 62"
    and "range_decrypt_element h c minval maxval key = Inr v"
  shows "minval \<le>s v \<and> v \<le>s maxval \<and> range_encrypt_element h v minval maxval key = Inr c"
proof -
  have c: "minval \<le>s c" "c \<le>s maxval"
    using assms(3) by (auto simp: range_decrypt_element_def signed.not_less split: if_splits)
  then have "cycle_walking_cipher h minval maxval c key 1 = Inr v"
    using assms(3) by (auto simp: range_decrypt_element_def split: if_splits)
  then have "minval \<le>s v \<and> v \<le>s maxval \<and> cycle_walking_cipher h minval maxval v key 0 = Inr c"
    using assms(1,2) c by (intro cipher_round_trip [where dir = 1]) simp_all
  then show ?thesis by (auto simp: range_encrypt_element_def signed.not_less [symmetric])
qed

lemma encrypt_injective:
  assumes "(minval :: int64) \<le>s maxval" "sint maxval - sint minval < 2 ^ 62"
    and "range_encrypt_element h v minval maxval key = Inr c"
    and "range_encrypt_element h w minval maxval key = Inr c"
  shows "v = w"
  using encrypt_decrypt_round_trip [OF assms(1,2,3)] encrypt_decrypt_round_trip [OF assms(1,2,4)]
  by simp

section \<open>The walk ends on ranges of at most \<open>2^20\<close> elements\<close>

text \<open>
  The values of the blocks are distinct for distinct blocks, and an attempt is undone by
  the attempt in the other direction.  So the results of a walk that starts in range and
  stays out of range are distinct values above \<open>maxval - minval\<close> and below
  \<open>2^(2*hsz)\<close>: there are at most \<open>2^(2*hsz) - interval_size\<close> of them.  For a range of
  at most \<open>2^20\<close> elements this number is below \<open>walk_max\<close>, so the cipher returns a
  value, whatever the hash function and the key; with the round trip above, encryption
  followed by decryption is the identity on such a range.
\<close>

lemma halves_value_inj:
  assumes "p \<in> block_halves (hsz_mask hsz)" "q \<in> block_halves (hsz_mask hsz)" "hsz \<le> 32"
    and "halves_value hsz p = halves_value hsz q"
  shows "p = q"
proof -
  have "p = (l1 (initial_halves hsz (hsz_mask hsz) 0 (0 + halves_value hsz p)),
             r1 (initial_halves hsz (hsz_mask hsz) 0 (0 + halves_value hsz p)))"
    using assms(1,3) by (rule initial_halves_of_value [symmetric])
  also have "\<dots> = (l1 (initial_halves hsz (hsz_mask hsz) 0 (0 + halves_value hsz q)),
             r1 (initial_halves hsz (hsz_mask hsz) 0 (0 + halves_value hsz q)))"
    by (simp only: assms(4))
  also have "\<dots> = q" using assms(2,3) by (rule initial_halves_of_value)
  finally show ?thesis .
qed

lemma halves_value_bound:
  assumes "p \<in> block_halves (hsz_mask hsz)" "hsz \<le> 32"
  shows "unat (halves_value hsz p) < 2 ^ (2 * hsz)"
proof -
  have "take_bit hsz (snd p) = snd p" "take_bit hsz (fst p) = fst p"
    using assms(1) by (simp_all add: block_halves_def hsz_mask_eq take_bit_eq_mask)
  then show ?thesis
    unfolding halves_value_def using assms(2) by (intro block_result_bound)
qed

lemma walk_lands_by_counting:
  assumes inv: "\<And>p. p \<in> block_halves (hsz_mask hsz) \<Longrightarrow> G' (G p) = p"
    and pres: "\<And>p. p \<in> block_halves (hsz_mask hsz) \<Longrightarrow> G p \<in> block_halves (hsz_mask hsz)"
    and p0: "p0 \<in> block_halves (hsz_mask hsz)" "halves_value hsz p0 \<le> d"
    and hsz: "hsz \<le> 32" and dlt: "unat d < 2 ^ (2 * hsz)"
    and out: "\<forall>j<N. d < halves_value hsz ((G ^^ Suc j) p0)"
  shows "N + unat d + 1 \<le> 2 ^ (2 * hsz)"
proof -
  let ?B = "block_halves (hsz_mask hsz)"
  define f where "f i = unat (halves_value hsz ((G ^^ Suc i) p0))" for i
  have blk: "(G ^^ i) p0 \<in> ?B" for i
    using p0(1) by (induction i) (simp_all add: pres)
  have distinct: False if ij: "i < j" "j < N" and eq: "f i = f j" for i j
  proof -
    have "halves_value hsz ((G ^^ Suc i) p0) = halves_value hsz ((G ^^ Suc j) p0)"
      using eq unfolding f_def by (rule unsigned_word_eqI)
    then have e: "(G ^^ Suc i) p0 = (G ^^ Suc j) p0"
      using blk hsz by (intro halves_value_inj)
    have "(G' ^^ Suc i) ((G ^^ Suc i) p0) = (G ^^ (Suc i - Suc i)) p0"
      using p0(1) by (intro funpow_undo [where B = ?B] inv pres) simp_all
    moreover have "(G' ^^ Suc i) ((G ^^ Suc j) p0) = (G ^^ (Suc j - Suc i)) p0"
      using p0(1) ij by (intro funpow_undo [where B = ?B] inv pres) simp_all
    ultimately have "p0 = (G ^^ (j - i)) p0" using e by simp
    moreover have "j - i = Suc (j - i - 1)" using ij by simp
    ultimately have "p0 = (G ^^ Suc (j - i - 1)) p0" by simp
    moreover have "d < halves_value hsz ((G ^^ Suc (j - i - 1)) p0)"
      using out ij by simp
    ultimately show False using p0(2) by simp
  qed
  have "inj_on f {..<N}"
  proof (rule inj_onI)
    fix i j assume "i \<in> {..<N}" "j \<in> {..<N}" "f i = f j"
    then show "i = j"
      using distinct [of i j] distinct [of j i] by (cases i j rule: linorder_cases) auto
  qed
  then have "card (f ` {..<N}) = N" by (simp add: card_image)
  moreover have "f ` {..<N} \<subseteq> {unat d + 1 ..< 2 ^ (2 * hsz)}"
  proof
    fix x assume "x \<in> f ` {..<N}"
    then obtain i where i: "i < N" "x = f i" by auto
    have "unat d < f i" using out i(1) by (simp add: f_def word_less_nat_alt)
    moreover have "f i < 2 ^ (2 * hsz)"
      unfolding f_def using blk hsz by (rule halves_value_bound)
    ultimately show "x \<in> {unat d + 1 ..< 2 ^ (2 * hsz)}" using i(2) by simp
  qed
  ultimately have "N \<le> card {unat d + 1 ..< (2 :: nat) ^ (2 * hsz)}"
    by (metis card_mono finite_atLeastLessThan)
  then show ?thesis using dlt by simp
qed

lemma cycle_walk_finds:
  assumes "int j < walk_max" "attempt_result h hsz m key dir s j \<le> d"
  shows "\<exists>n. int n < walk_max \<and>
           cycle_walk h hsz m key dir d s 0 = (attempt_result h hsz m key dir s n, int n)"
proof -
  define n where "n = (LEAST j. attempt_result h hsz m key dir s j \<le> d)"
  have n1: "attempt_result h hsz m key dir s n \<le> d"
    unfolding n_def using assms(2) by (rule LeastI)
  have n2: "n \<le> j" unfolding n_def using assms(2) by (rule Least_le)
  have n3: "\<forall>i<n. d < attempt_result h hsz m key dir s i"
  proof (intro allI impI)
    fix i assume "i < n"
    then have "\<not> attempt_result h hsz m key dir s i \<le> d"
      unfolding n_def by (rule not_less_Least)
    then show "d < attempt_result h hsz m key dir s i" by (simp add: not_le)
  qed
  have n4: "int n < walk_max" using n2 assms(1) by simp
  have "cycle_walk h hsz m key dir d s 0 = (attempt_result h hsz m key dir s n, 0 + int n)"
    using n3 n1 n4 by (intro cycle_walk_lands) simp_all
  then show ?thesis using n4 by auto
qed

lemma small_range_domain:
  assumes "(minval :: int64) \<le>s maxval" "sint maxval - sint minval < 2 ^ 20"
  shows "2 ^ (2 * hsz_loop 1 (maxval - minval + 1)) < 1000000 + unat (maxval - minval) + 1"
proof -
  define interval where "interval = maxval - minval + 1"
  define k where "k = hsz_loop 1 interval"
  define D where "D = sint maxval - sint minval"
  have D: "0 \<le> D" "D < 2 ^ 20" using assms by (simp_all add: D_def word_sle_eq)
  have "uint interval = (D + 1) mod 2 ^ 64"
    unfolding interval_def D_def by (rule uint_interval)
  then have ui: "int (unat interval) = D + 1" using D by simp
  have "uint (maxval - minval) = D mod 2 ^ 64" unfolding D_def by (rule uint_diff)
  then have ud: "int (unat (maxval - minval)) = D" using D by simp
  have props: "1 \<le> k" "\<forall>j. 1 \<le> j \<and> j < k \<longrightarrow> (4 :: nat) ^ j < unat interval"
    using hsz_loop_props [of 1 interval] unfolding k_def by auto
  have k10: "k \<le> 10"
  proof (rule ccontr)
    assume "\<not> k \<le> 10"
    then have "1 \<le> (10 :: nat) \<and> 10 < k" by simp
    then have "(4 :: nat) ^ 10 < unat interval" using props(2) by blast
    then have "int (4 ^ 10) < int (unat interval)" by (simp only: of_nat_less_iff)
    then show False using ui D by simp
  qed
  have "(2 :: nat) ^ (2 * k) < 1000000 + unat (maxval - minval) + 1"
  proof (cases "k = 10")
    case True
    then have "1 \<le> (9 :: nat) \<and> 9 < k" by simp
    then have "(4 :: nat) ^ 9 < unat interval" using props(2) by blast
    then have "int (4 ^ 9) < int (unat interval)" by (simp only: of_nat_less_iff)
    then have "262144 < D + 1" using ui by simp
    then have "262144 \<le> int (unat (maxval - minval))" using ud by simp
    then have "(262144 :: nat) \<le> unat (maxval - minval)" by linarith
    then show ?thesis using True by simp
  next
    case False
    then have "k \<le> 9" using k10 by simp
    then have "(2 :: nat) ^ (2 * k) \<le> 2 ^ (2 * 9)" by (intro power_increasing) simp_all
    then show ?thesis by simp
  qed
  then show ?thesis unfolding k_def interval_def .
qed

lemma cipher_returns_small:
  assumes rng: "(minval :: int64) \<le>s maxval" "sint maxval - sint minval < 2 ^ 20"
    and v: "minval \<le>s v" "v \<le>s maxval"
    and dirs: "dir = 0 \<and> dir' = (1 :: int) \<or> dir = 1 \<and> dir' = 0"
  shows "\<exists>c. cycle_walking_cipher h minval maxval v key dir = Inr c"
proof -
  define hsz where "hsz = hsz_loop 1 (maxval - minval + 1)"
  define m where "m = hsz_mask hsz"
  define K where "K = scramble_key h key"
  define d where "d = maxval - minval"
  define G where "G = walk_perm h hsz m K dir"
  define G' where "G' = walk_perm h hsz m K dir'"
  define s0 where "s0 = initial_halves hsz m minval v"
  define p0 where "p0 = (l1 s0, r1 s0)"
  have rng62: "sint maxval - sint minval < 2 ^ 62" using rng(2) by simp
  have hsz: "hsz \<le> 32" and dlt: "unat d < 2 ^ (2 * hsz)"
    using small_range_hsz [OF rng(1) rng62] unfolding hsz_def d_def by simp_all
  have dom: "2 ^ (2 * hsz) < 1000000 + unat d + 1"
    unfolding hsz_def d_def using rng by (rule small_range_domain)
  have off: "v - minval \<le> d" unfolding d_def using v by (rule in_range_offset)
  then have "unat (v - minval) \<le> unat d" by (simp add: word_le_nat_alt)
  then have olt: "unat (v - minval) < 2 ^ (2 * hsz)" using dlt by simp
  have p0B: "p0 \<in> block_halves (hsz_mask hsz)"
    unfolding p0_def s0_def m_def using olt hsz by (rule initial_halves_block)
  have p0v: "halves_value hsz p0 \<le> d"
    unfolding p0_def s0_def m_def using off olt hsz by (simp add: initial_halves_value)
  have inv: "G' (G p) = p" if "p \<in> block_halves (hsz_mask hsz)" for p
    using dirs that unfolding G_def G'_def m_def
    by (auto simp: walk_perm_decrypt_encrypt walk_perm_encrypt_decrypt)
  have pres: "G p \<in> block_halves (hsz_mask hsz)" if "p \<in> block_halves (hsz_mask hsz)" for p
    unfolding G_def m_def using that by (rule walk_perm_block)
  have att: "attempt_result h hsz m K dir s0 j = halves_value hsz ((G ^^ Suc j) p0)" for j
    unfolding G_def p0_def by (rule attempt_result_pair)
  have "\<not> (\<forall>j<1000000. d < halves_value hsz ((G ^^ Suc j) p0))"
  proof
    assume "\<forall>j<1000000. d < halves_value hsz ((G ^^ Suc j) p0)"
    then have "1000000 + unat d + 1 \<le> 2 ^ (2 * hsz)"
      using inv pres p0B p0v hsz dlt by (intro walk_lands_by_counting [where G = G and G' = G'])
    then show False using dom by simp
  qed
  then obtain j where j: "j < 1000000" "attempt_result h hsz m K dir s0 j \<le> d"
    by (auto simp: not_less att)
  have "int j < walk_max" using j(1) by (simp add: walk_max_def)
  then obtain n where n: "int n < walk_max"
      "cycle_walk h hsz m K dir d s0 0 = (attempt_result h hsz m K dir s0 n, int n)"
    using cycle_walk_finds [OF _ j(2)] by blast
  have "cycle_walking_cipher h minval maxval v key dir =
      (let p = cycle_walk h hsz m K dir d s0 0
       in if walk_max \<le> snd p then Inl CycleLimitExceeded else Inr (minval + fst p))"
    unfolding hsz_def m_def K_def d_def s0_def by (rule cycle_walking_cipher_walk)
  then show ?thesis using n by simp
qed

lemma small_range_bijection:
  assumes "(minval :: int64) \<le>s maxval" "sint maxval - sint minval < 2 ^ 20"
    and "minval \<le>s v" "v \<le>s maxval"
  shows "\<exists>c. range_encrypt_element h v minval maxval key = Inr c \<and>
             minval \<le>s c \<and> c \<le>s maxval \<and>
             range_decrypt_element h c minval maxval key = Inr v"
proof -
  obtain c where "cycle_walking_cipher h minval maxval v key 0 = Inr c"
    using cipher_returns_small [OF assms, of 0 1] by auto
  then have enc: "range_encrypt_element h v minval maxval key = Inr c"
    using assms(3,4) by (simp add: range_encrypt_element_def signed.not_less [symmetric])
  moreover have "sint maxval - sint minval < 2 ^ 62" using assms(2) by simp
  ultimately show ?thesis
    using encrypt_decrypt_round_trip [OF assms(1) _ enc] by blast
qed

section \<open>The full 64-bit range\<close>

text \<open>
  \<open>check_sequence_range\<close> accepts the range from \<open>PG_INT64_MIN\<close> to \<open>PG_INT64_MAX\<close>,
  and the range functions accept any range.  In \<open>cycle_walking_cipher\<close> the \<open>uint64\<close>
  \<open>interval = maxval - minval + 1\<close> of this range wraps to 0, so the loop computing
  \<open>hsz\<close> stops at once with \<open>hsz = 1\<close>; no result is greater than
  \<open>maxval - minval = 2^64 - 1\<close>, so the first result is returned.  Whatever the hash
  function, the key, the direction and the value, the result is one of the four values
  \<open>PG_INT64_MIN, ..., PG_INT64_MIN + 3\<close>.  So no decryption gives \<open>PG_INT64_MIN + 4\<close>
  back, and two values whose offsets agree on the bits 0 to 32 have the same encryption.
\<close>

lemma full_range_cipher_outputs:
  "\<exists>r. cycle_walking_cipher h PG_INT64_MIN PG_INT64_MAX v key dir = Inr (PG_INT64_MIN + r) \<and>
       unat r < 4"
proof -
  have i: "PG_INT64_MAX - PG_INT64_MIN + 1 = 0" "PG_INT64_MAX - PG_INT64_MIN = - 1"
    by (simp_all add: PG_INT64_MAX_def PG_INT64_MIN_def)
  have hsz: "hsz_loop (Suc 0) 0 = Suc 0" by (subst hsz_loop.simps) simp
  define s where "s = initial_halves (Suc 0) (hsz_mask (Suc 0)) PG_INT64_MIN v"
  define r where "r = attempt_result h (Suc 0) (hsz_mask (Suc 0)) (scramble_key h key) dir s 0"
  have "\<not> - 1 < r" by (simp add: not_less)
  then have w: "cycle_walk h (Suc 0) (hsz_mask (Suc 0)) (scramble_key h key) dir (- 1) s 0 = (r, 0)"
    unfolding r_def by (rule cycle_walk_in_range)
  have enc: "cycle_walking_cipher h PG_INT64_MIN PG_INT64_MAX v key dir = Inr (PG_INT64_MIN + r)"
    using w by (simp add: cycle_walking_cipher_walk i hsz s_def walk_max_def)
  have "take_bit (Suc 0) (l1 (feistel_rounds h (Suc 0) (hsz_mask (Suc 0)) (scramble_key h key) dir 0 s)) =
          l1 (feistel_rounds h (Suc 0) (hsz_mask (Suc 0)) (scramble_key h key) dir 0 s)"
       "take_bit (Suc 0) (r1 (feistel_rounds h (Suc 0) (hsz_mask (Suc 0)) (scramble_key h key) dir 0 s)) =
          r1 (feistel_rounds h (Suc 0) (hsz_mask (Suc 0)) (scramble_key h key) dir 0 s)"
    unfolding feistel_rounds_unrolled
    by (simp_all only: l1_feistel_round r1_feistel_round_masked)
  then have "unat r < 2 ^ (2 * Suc 0)"
    unfolding r_def attempt_result_0 block_result_def by (intro block_result_bound) simp
  then show ?thesis using enc by auto
qed

lemma full_range_all_values: "\<not> (v <s PG_INT64_MIN \<or> PG_INT64_MAX <s v)"
  using sint64_bounds [of v] by (simp add: word_sless_alt sint_MIN sint_MAX)

lemma full_range_outputs:
  "\<exists>r. range_encrypt_element h v PG_INT64_MIN PG_INT64_MAX key = Inr (PG_INT64_MIN + r) \<and> unat r < 4"
  using full_range_cipher_outputs [of h v key 0] full_range_all_values [of v]
  by (simp add: range_encrypt_element_def)

lemma full_range_decrypt_misses:
  "range_decrypt_element h c PG_INT64_MIN PG_INT64_MAX key \<noteq> Inr (PG_INT64_MIN + 4)"
proof
  assume a: "range_decrypt_element h c PG_INT64_MIN PG_INT64_MAX key = Inr (PG_INT64_MIN + 4)"
  obtain r where r: "cycle_walking_cipher h PG_INT64_MIN PG_INT64_MAX c key 1 = Inr (PG_INT64_MIN + r)"
      "unat r < 4"
    using full_range_cipher_outputs [of h c key 1] by blast
  have "PG_INT64_MIN + r = PG_INT64_MIN + 4"
    using a r(1) full_range_all_values [of c] by (simp add: range_decrypt_element_def)
  then have "r = 4" by simp
  then show False using r(2) by simp
qed

lemma full_range_same_encryption:
  "range_encrypt_element h (PG_INT64_MIN + 8589934592) PG_INT64_MIN PG_INT64_MAX key =
   range_encrypt_element h PG_INT64_MIN PG_INT64_MIN PG_INT64_MAX key"
proof -
  have e: "initial_halves (hsz_loop 1 (PG_INT64_MAX - PG_INT64_MIN + 1))
             (hsz_mask (hsz_loop 1 (PG_INT64_MAX - PG_INT64_MIN + 1))) PG_INT64_MIN
             (PG_INT64_MIN + 8589934592) =
           initial_halves (hsz_loop 1 (PG_INT64_MAX - PG_INT64_MIN + 1))
             (hsz_mask (hsz_loop 1 (PG_INT64_MAX - PG_INT64_MIN + 1))) PG_INT64_MIN PG_INT64_MIN"
    by code_simp
  have "cycle_walking_cipher h PG_INT64_MIN PG_INT64_MAX (PG_INT64_MIN + 8589934592) key 0 =
        cycle_walking_cipher h PG_INT64_MIN PG_INT64_MAX PG_INT64_MIN key 0"
    by (simp only: cycle_walking_cipher_walk e)
  then show ?thesis
    using full_range_all_values [of "PG_INT64_MIN + 8589934592"]
      full_range_all_values [of PG_INT64_MIN]
    by (simp add: range_encrypt_element_def)
qed

text \<open>
  C1 says that decrypting the encryption of a value of the range gives the value back,
  for every valid range and key.  At the full 64-bit range with the key 0 it does not:
  the encryption of \<open>PG_INT64_MIN + 4\<close> is \<open>PG_INT64_MIN + 2\<close>, whose decryption is
  \<open>PG_INT64_MIN\<close>, not the value encrypted.
\<close>

theorem C1_full_range_round_trip_fails:
  "range_encrypt_element pg_hash_uint32 (PG_INT64_MIN + 4) PG_INT64_MIN PG_INT64_MAX 0 =
     Inr (PG_INT64_MIN + 2) \<and>
   range_decrypt_element pg_hash_uint32 (PG_INT64_MIN + 2) PG_INT64_MIN PG_INT64_MAX 0 =
     Inr PG_INT64_MIN \<and>
   PG_INT64_MIN \<noteq> PG_INT64_MIN + 4"
proof -
  have a: "range_encrypt_element pg_hash_uint32 (PG_INT64_MIN + 4) PG_INT64_MIN PG_INT64_MAX 0 =
     Inr (PG_INT64_MIN + 2)" by code_simp
  have b: "range_decrypt_element pg_hash_uint32 (PG_INT64_MIN + 2) PG_INT64_MIN PG_INT64_MAX 0 =
     Inr PG_INT64_MIN" by code_simp
  from a b show ?thesis by simp
qed

text \<open>
  C2 says that encryption maps the range into itself and distinct values to distinct
  values, for every valid range and key.  At the full 64-bit range with the key 0 it
  does not: \<open>PG_INT64_MIN\<close> and \<open>PG_INT64_MIN + 2^33\<close> are distinct values of the range
  with the same encryption.
\<close>

theorem C2_full_range_collision:
  "range_encrypt_element pg_hash_uint32 PG_INT64_MIN PG_INT64_MIN PG_INT64_MAX 0 =
     Inr (PG_INT64_MIN + 2) \<and>
   range_encrypt_element pg_hash_uint32 (PG_INT64_MIN + 8589934592) PG_INT64_MIN PG_INT64_MAX 0 =
     Inr (PG_INT64_MIN + 2) \<and>
   PG_INT64_MIN \<noteq> PG_INT64_MIN + 8589934592"
proof -
  have a: "range_encrypt_element pg_hash_uint32 PG_INT64_MIN PG_INT64_MIN PG_INT64_MAX 0 =
     Inr (PG_INT64_MIN + 2)" by code_simp
  have b: "range_encrypt_element pg_hash_uint32 (PG_INT64_MIN + 8589934592) PG_INT64_MIN
     PG_INT64_MAX 0 = Inr (PG_INT64_MIN + 2)" by code_simp
  from a b show ?thesis by simp
qed

end
